theory Spec2Isabelle
  imports Main "HOL-Library.AList" "HOL-Library.Sublist"
begin

section \<open>JavaScript values and property access\<close>

text \<open>
  The state tree of \<^verbatim>\<open>state-manager.js\<close> holds plain data: nested objects and arrays whose
  leaves are null, booleans, numbers and strings. An object is the ordered list of its own
  properties; an array is the list of its elements (a hole is an element that reads as
  undefined) and the list of its named properties. The tree is held by value: no object of
  the tree is shared between two places of it.
\<close>

datatype jsval =
    Undefined
  | Null
  | JBool bool
  | JNum int
  | JStr string
  | JObj "(string \<times> jsval) list"
  | JArr "jsval list" "(string \<times> jsval) list"

datatype js_error = JsError (err_name: string) (err_message: string)

text \<open>
  What belongs to the JavaScript runtime and not to the repository is a parameter of the
  model, and every theorem holds for each choice of it: the properties a value inherits
  rather than owns (the members of the built-in prototypes, the \<^verbatim>\<open>length\<close> and the indices
  of a string), the conversion of a string, an object or an array to a number, and the
  conversion of a value that is not a string to a string. A change of the prototype of an
  object is not visible in the model.
\<close>

record runtime =
  inherited :: "jsval \<Rightarrow> string \<Rightarrow> jsval option"
  to_number :: "jsval \<Rightarrow> int option"
  to_string :: "jsval \<Rightarrow> string"

definition no_builtins :: runtime where
  "no_builtins =
     \<lparr>inherited = (\<lambda>v k. None), to_number = (\<lambda>v. None), to_string = (\<lambda>v. [])\<rparr>"

definition string_builtins :: runtime where
  "string_builtins =
     \<lparr>inherited = (\<lambda>v k. case v of
                         JStr s \<Rightarrow> if k = ''length'' then Some (JNum (int (length s))) else None
                       | _ \<Rightarrow> None),
      to_number = (\<lambda>v. None), to_string = (\<lambda>v. [])\<rparr>"

text \<open>The decimal digits of a number, as a template literal prints it and as an array
  names its indices.\<close>

definition digit_char :: "nat \<Rightarrow> char" where
  "digit_char d = ''0123456789'' ! d"

function string_of_nat :: "nat \<Rightarrow> string" where
  "string_of_nat n =
     (if n < 10 then [digit_char n] else string_of_nat (n div 10) @ [digit_char (n mod 10)])"
  by pat_completeness auto
termination
  by (relation "measure id") auto

definition digit_of :: "char \<Rightarrow> nat option" where
  "digit_of c =
     map_of [(CHR ''0'', 0), (CHR ''1'', 1), (CHR ''2'', 2), (CHR ''3'', 3), (CHR ''4'', 4),
             (CHR ''5'', 5), (CHR ''6'', 6), (CHR ''7'', 7), (CHR ''8'', 8), (CHR ''9'', 9)] c"

fun digits_value :: "nat \<Rightarrow> string \<Rightarrow> nat option" where
  "digits_value n [] = Some n"
| "digits_value n (c # cs) =
     (case digit_of c of
        None \<Rightarrow> None
      | Some d \<Rightarrow> digits_value (10 * n + d) cs)"

text \<open>A key is an array index when it is the decimal form, without leading zeros, of a
  number below \<open>2 ^ 32 - 1\<close>.\<close>

definition index_of :: "string \<Rightarrow> nat option" where
  "index_of k =
     (if k = [] \<or> (hd k = CHR ''0'' \<and> k \<noteq> ''0'') then None
      else (case digits_value 0 k of
              None \<Rightarrow> None
            | Some i \<Rightarrow> if i < 2 ^ 32 - 1 then Some i else None))"

text \<open>The own property \<open>k\<close> of a value: of an object a property of its list; of an array its
  \<^verbatim>\<open>length\<close>, an element or a named property.\<close>

fun own_prop :: "jsval \<Rightarrow> string \<Rightarrow> jsval option" where
  "own_prop (JObj kvs) k = map_of kvs k"
| "own_prop (JArr xs ps) k =
     (if k = ''length'' then Some (JNum (int (length xs)))
      else (case index_of k of
              Some i \<Rightarrow> if i < length xs then Some (xs ! i) else None
            | None \<Rightarrow> map_of ps k))"
| "own_prop v k = None"

text \<open>The property \<open>k\<close> of a value that is neither undefined nor null: an own property
  first, then what the value inherits; \<open>None\<close> when there is no such property.\<close>

definition lookup_prop :: "runtime \<Rightarrow> jsval \<Rightarrow> string \<Rightarrow> jsval option" where
  "lookup_prop rt v k =
     (case own_prop v k of Some x \<Rightarrow> Some x | None \<Rightarrow> inherited rt v k)"

definition nullish :: "jsval \<Rightarrow> bool" where
  "nullish v = (v = Undefined \<or> v = Null)"

text \<open>\<^verbatim>\<open>v[k]\<close>: a TypeError on undefined and null, the property or undefined otherwise.\<close>

definition type_error :: js_error where
  "type_error = JsError ''TypeError'' ''Cannot read properties of undefined or null''"

definition member :: "runtime \<Rightarrow> jsval \<Rightarrow> string \<Rightarrow> js_error + jsval" where
  "member rt v k =
     (if nullish v then Inl type_error
      else Inr (case lookup_prop rt v k of Some x \<Rightarrow> x | None \<Rightarrow> Undefined))"

text \<open>\<^verbatim>\<open>v?.[k]\<close>: undefined on undefined and null, \<^verbatim>\<open>v[k]\<close> otherwise.\<close>

definition opt_member :: "runtime \<Rightarrow> jsval \<Rightarrow> string \<Rightarrow> js_error + jsval" where
  "opt_member rt v k = (if nullish v then Inr Undefined else member rt v k)"

subsection \<open>Assignment to a property\<close>

text \<open>
  \<^verbatim>\<open>obj[k] = v\<close> outside strict mode (the scripts are classic scripts without a
  \<^verbatim>\<open>'use strict'\<close> directive): the value that \<open>obj\<close> is afterwards, or the error thrown.
  \<^item> Of an object, the own property \<open>k\<close> is set or added. The key \<^verbatim>\<open>__proto__\<close>, when it is
    not an own property, is the accessor of the prototype: the own properties stay as they
    are.
  \<^item> Of an array, a write to \<^verbatim>\<open>length\<close> converts the value to a number and cuts or extends the
    elements, or throws a RangeError when the number is no array length; a write to an index
    sets the element, extending the array with holes when the index is past the end; any
    other key is a named property, with \<^verbatim>\<open>__proto__\<close> as for an object.
  \<^item> On undefined and null the write throws; on a boolean, a number or a string it is
    dropped silently.
\<close>

definition range_error :: js_error where
  "range_error = JsError ''RangeError'' ''Invalid array length''"

fun array_length_of :: "runtime \<Rightarrow> jsval \<Rightarrow> nat option" where
  "array_length_of rt (JNum n) = (if 0 \<le> n \<and> n < 2 ^ 32 then Some (nat n) else None)"
| "array_length_of rt (JBool b) = Some (if b then 1 else 0)"
| "array_length_of rt Null = Some 0"
| "array_length_of rt Undefined = None"
| "array_length_of rt v =
     (case to_number rt v of
        Some n \<Rightarrow> if 0 \<le> n \<and> n < 2 ^ 32 then Some (nat n) else None
      | None \<Rightarrow> None)"

definition resize :: "nat \<Rightarrow> jsval list \<Rightarrow> jsval list" where
  "resize n xs = take n xs @ replicate (n - length xs) Undefined"

fun assign :: "runtime \<Rightarrow> jsval \<Rightarrow> string \<Rightarrow> jsval \<Rightarrow> js_error + jsval" where
  "assign rt (JObj kvs) k v =
     (if k = ''__proto__'' \<and> map_of kvs k = None then Inr (JObj kvs)
      else Inr (JObj (AList.update k v kvs)))"
| "assign rt (JArr xs ps) k v =
     (if k = ''length'' then
        (case array_length_of rt v of
           Some n \<Rightarrow> Inr (JArr (resize n xs) ps)
         | None \<Rightarrow> Inl range_error)
      else (case index_of k of
              Some i \<Rightarrow> Inr (JArr ((resize (max (Suc i) (length xs)) xs)[i := v]) ps)
            | None \<Rightarrow>
                if k = ''__proto__'' \<and> map_of ps k = None then Inr (JArr xs ps)
                else Inr (JArr xs (AList.update k v ps))))"
| "assign rt Undefined k v = Inl type_error"
| "assign rt Null k v = Inl type_error"
| "assign rt prim k v = Inr prim"

section \<open>Paths\<close>

text \<open>\<^verbatim>\<open>s.split(c)\<close> for a one-character separator: never the empty list.\<close>

fun split_on :: "char \<Rightarrow> string \<Rightarrow> string list" where
  "split_on c [] = [[]]"
| "split_on c (x # xs) =
     (if x = c then [] # split_on c xs
      else (case split_on c xs of
              [] \<Rightarrow> [[x]]
            | w # ws \<Rightarrow> (x # w) # ws))"

text \<open>\<^verbatim>\<open>parts.join(c)\<close>.\<close>

fun join_with :: "char \<Rightarrow> string list \<Rightarrow> string" where
  "join_with c [] = []"
| "join_with c [w] = w"
| "join_with c (w # w' # ws) = w @ c # join_with c (w' # ws)"

definition path_keys :: "string \<Rightarrow> string list" where
  "path_keys path = split_on CHR ''.'' path"

section \<open>The state store\<close>

subsection \<open>getState\<close>

text \<open>The loop \<^verbatim>\<open>for (const key of keys) value = value?.[key]\<close>.\<close>

fun get_loop :: "runtime \<Rightarrow> jsval \<Rightarrow> string list \<Rightarrow> js_error + jsval" where
  "get_loop rt v [] = Inr v"
| "get_loop rt v (k # ks) =
     (case opt_member rt v k of
        Inl e \<Rightarrow> Inl e
      | Inr v' \<Rightarrow> get_loop rt v' ks)"

text \<open>\<^verbatim>\<open>getState(path = null)\<close>: \<open>None\<close> is the omitted (or null) argument; the empty
  string is falsy as well, so it returns the whole tree too.\<close>

definition getState :: "runtime \<Rightarrow> jsval \<Rightarrow> string option \<Rightarrow> js_error + jsval" where
  "getState rt state path =
     (case path of
        None \<Rightarrow> Inr state
      | Some p \<Rightarrow> if p = [] then Inr state else get_loop rt state (path_keys p))"

subsection \<open>The store, its subscribers and the callbacks\<close>

text \<open>
  A callback is a function object, compared by reference: it is modelled by an identifier.
  \<^verbatim>\<open>subscribers\<close> is a \<^verbatim>\<open>Map\<close> from a path to a \<^verbatim>\<open>Set\<close> of callbacks: an association list in
  insertion order. A \<^verbatim>\<open>Set\<close> is the list of its entries in insertion order, as ECMAScript
  defines it: \<^verbatim>\<open>add\<close> appends an entry for a value that is not in the set, \<^verbatim>\<open>delete\<close> empties
  the entry of the value and leaves it in its place (\<open>None\<close>), and \<^verbatim>\<open>forEach\<close> walks the
  entries by their position and skips the empty ones, so that it sees what a callback adds
  or deletes while it runs.
\<close>

type_synonym cb = nat

record store =
  tree :: jsval
  subs :: "(string \<times> cb option list) list"

definition set_add :: "'a \<Rightarrow> 'a option list \<Rightarrow> 'a option list" where
  "set_add x xs = (if Some x \<in> set xs then xs else xs @ [Some x])"

definition set_delete :: "'a \<Rightarrow> 'a option list \<Rightarrow> 'a option list" where
  "set_delete x xs = map (\<lambda>entry. if entry = Some x then None else entry) xs"

text \<open>The values of a set, in the order of their entries.\<close>

fun members :: "'a option list \<Rightarrow> 'a list" where
  "members [] = []"
| "members (None # xs) = members xs"
| "members (Some x # xs) = x # members xs"

definition callbacks_at :: "store \<Rightarrow> string \<Rightarrow> cb list" where
  "callbacks_at st path = (case map_of (subs st) path of None \<Rightarrow> [] | Some es \<Rightarrow> members es)"

subsection \<open>subscribe\<close>

text \<open>The returned closure captures \<open>path\<close> and \<open>callback\<close>: it is modelled by that pair,
  and \<open>unsubscribe\<close> is its body.\<close>

definition subscribe :: "string \<Rightarrow> cb \<Rightarrow> store \<Rightarrow> store \<times> (string \<times> cb)" where
  "subscribe path callback st =
     (let sb = (if map_of (subs st) path = None then AList.update path [] (subs st) else subs st);
          es = (case map_of sb path of None \<Rightarrow> [] | Some es \<Rightarrow> es)
      in (st\<lparr>subs := AList.update path (set_add callback es) sb\<rparr>, (path, callback)))"

definition unsubscribe :: "string \<times> cb \<Rightarrow> store \<Rightarrow> store" where
  "unsubscribe u st =
     (case map_of (subs st) (fst u) of
        None \<Rightarrow> st
      | Some es \<Rightarrow> st\<lparr>subs := AList.update (fst u) (set_delete (snd u) es) (subs st)\<rparr>)"

subsection \<open>Writing the value at a path\<close>

text \<open>The loop \<^verbatim>\<open>for (let i = 0; i < keys.length - 1; i++) obj = obj[keys[i]]\<close>, run on
  the keys but the last.\<close>

fun descend :: "runtime \<Rightarrow> jsval \<Rightarrow> string list \<Rightarrow> js_error + jsval" where
  "descend rt obj [] = Inr obj"
| "descend rt obj (k # ks) =
     (case member rt obj k of
        Inl e \<Rightarrow> Inl e
      | Inr obj' \<Rightarrow> descend rt obj' ks)"

text \<open>
  \<^verbatim>\<open>obj[lastKey] = value\<close> writes into the object the loop has reached, in place. Seen
  from the root, the tree changes when every key on the way named an own property: the
  object at those keys is replaced by what the assignment has made of it. When a key on the
  way named an inherited property, the write is to a value of the runtime and the tree
  stays as it is.
\<close>

fun put_child :: "jsval \<Rightarrow> string \<Rightarrow> jsval \<Rightarrow> jsval" where
  "put_child (JObj kvs) k c = JObj (AList.update k c kvs)"
| "put_child (JArr xs ps) k c =
     (if k = ''length'' then JArr xs ps
      else (case index_of k of
              Some i \<Rightarrow> if i < length xs then JArr (xs[i := c]) ps else JArr xs ps
            | None \<Rightarrow> JArr xs (AList.update k c ps)))"
| "put_child v k c = v"

fun replace_at :: "jsval \<Rightarrow> string list \<Rightarrow> jsval \<Rightarrow> jsval" where
  "replace_at t [] new = new"
| "replace_at t (k # ks) new =
     (case own_prop t k of
        Some c \<Rightarrow> put_child t k (replace_at c ks new)
      | None \<Rightarrow> t)"

text \<open>The first half of \<open>setState\<close>, up to the broadcast: the store after the write and the
  value read before it, or the error thrown, which leaves the store as it was.\<close>

definition write_path :: "runtime \<Rightarrow> store \<Rightarrow> string \<Rightarrow> jsval \<Rightarrow> js_error + store \<times> jsval" where
  "write_path rt st path value =
     (let keys = path_keys path in
      case descend rt (tree st) (butlast keys) of
        Inl e \<Rightarrow> Inl e
      | Inr obj \<Rightarrow>
          (case member rt obj (last keys) of
             Inl e \<Rightarrow> Inl e
           | Inr oldValue \<Rightarrow>
               (case assign rt obj (last keys) value of
                  Inl e \<Rightarrow> Inl e
                | Inr obj' \<Rightarrow>
                    Inr (st\<lparr>tree := replace_at (tree st) (butlast keys) obj'\<rparr>, oldValue))))"

subsection \<open>Callbacks that return or throw\<close>

text \<open>
  In this first model of the broadcast, what the store sees of a callback is whether a call
  returns or throws. Callbacks that call back into the store while they run follow below.
\<close>

type_synonym behaviour = "cb \<Rightarrow> jsval \<Rightarrow> jsval \<Rightarrow> string \<Rightarrow> js_error option"

definition quiet :: behaviour where
  "quiet c nv ov p = None"

datatype event =
    Called cb jsval jsval string
  | ConsoleError js_error

definition invoke :: "behaviour \<Rightarrow> cb \<Rightarrow> jsval \<Rightarrow> jsval \<Rightarrow> string \<Rightarrow> js_error + unit" where
  "invoke bh c nv ov p = (case bh c nv ov p of Some e \<Rightarrow> Inl e | None \<Rightarrow> Inr ())"

text \<open>\<^verbatim>\<open>try { callback(a, b, path) } catch (e) { console.error('Subscriber error:', e) }\<close>\<close>

definition guarded_call :: "behaviour \<Rightarrow> cb \<Rightarrow> jsval \<Rightarrow> jsval \<Rightarrow> string \<Rightarrow> event list" where
  "guarded_call bh c nv ov p =
     Called c nv ov p #
       (case invoke bh c nv ov p of Inl e \<Rightarrow> [ConsoleError e] | Inr _ \<Rightarrow> [])"

text \<open>\<^verbatim>\<open>set.forEach(callback => ...)\<close> with the guarded call as its body, over the entries
  of the set.\<close>

fun forEach_guarded ::
  "behaviour \<Rightarrow> cb option list \<Rightarrow> jsval \<Rightarrow> jsval \<Rightarrow> string \<Rightarrow> event list" where
  "forEach_guarded bh [] nv ov p = []"
| "forEach_guarded bh (None # es) nv ov p = forEach_guarded bh es nv ov p"
| "forEach_guarded bh (Some c # es) nv ov p =
     guarded_call bh c nv ov p @ forEach_guarded bh es nv ov p"

text \<open>\<^verbatim>\<open>if (subscribers.has(key)) subscribers.get(key).forEach(...)\<close>\<close>

definition notify_path ::
  "behaviour \<Rightarrow> (string \<times> cb option list) list \<Rightarrow> string \<Rightarrow> jsval \<Rightarrow> jsval \<Rightarrow> string
     \<Rightarrow> event list" where
  "notify_path bh sb key nv ov p =
     (case map_of sb key of None \<Rightarrow> [] | Some es \<Rightarrow> forEach_guarded bh es nv ov p)"

subsection \<open>broadcastChange\<close>

text \<open>
  The loop \<^verbatim>\<open>for (let i = 1; i < parts.length; i++)\<close> over the parent paths. The call of
  \<open>getState\<close> is outside the \<^verbatim>\<open>try\<close>: an error of it would leave the loop. The result is
  the error that left the loop, if any, and the events up to there.
\<close>

function parents_loop ::
  "runtime \<Rightarrow> behaviour \<Rightarrow> store \<Rightarrow> string list \<Rightarrow> string \<Rightarrow> nat \<Rightarrow> js_error option \<times> event list" where
  "parents_loop rt bh st parts path i =
     (if i < length parts then
        (let parentPath = join_with CHR ''.'' (take i parts) in
         case map_of (subs st) parentPath of
           None \<Rightarrow> parents_loop rt bh st parts path (i + 1)
         | Some es \<Rightarrow>
             (case getState rt (tree st) (Some parentPath) of
                Inl e \<Rightarrow> (Some e, [])
              | Inr parentValue \<Rightarrow>
                  (case parents_loop rt bh st parts path (i + 1) of
                     (r, evs) \<Rightarrow> (r, forEach_guarded bh es parentValue Null path @ evs))))
      else (None, []))"
  by pat_completeness auto
termination
  by (relation "measure (\<lambda>(rt, bh, st, parts, path, i). length parts - i)") auto

definition broadcastChange ::
  "runtime \<Rightarrow> behaviour \<Rightarrow> store \<Rightarrow> string \<Rightarrow> jsval \<Rightarrow> jsval \<Rightarrow> js_error option \<times> event list" where
  "broadcastChange rt bh st path newValue oldValue =
     (let exact = notify_path bh (subs st) path newValue oldValue path;
          parts = path_keys path
      in case parents_loop rt bh st parts path 1 of
           (Some e, evs) \<Rightarrow> (Some e, exact @ evs)
         | (None, evs) \<Rightarrow>
             (None, exact @ evs @ notify_path bh (subs st) ''*'' newValue oldValue path))"

subsection \<open>setState\<close>

text \<open>The result of a call: the error thrown, if any, the store and the events of the
  call in their order.\<close>

record set_result =
  thrown :: "js_error option"
  final :: store
  events :: "event list"

definition setState :: "runtime \<Rightarrow> behaviour \<Rightarrow> store \<Rightarrow> string \<Rightarrow> jsval \<Rightarrow> set_result" where
  "setState rt bh st path value =
     (case write_path rt st path value of
        Inl e \<Rightarrow> \<lparr>thrown = Some e, final = st, events = []\<rparr>
      | Inr (st', oldValue) \<Rightarrow>
          (case broadcastChange rt bh st' path value oldValue of
             (r, evs) \<Rightarrow> \<lparr>thrown = r, final = st', events = evs\<rparr>))"

subsection \<open>Callbacks that call back into the store\<close>

text \<open>
  A callback may call \<open>subscribe\<close>, an unsubscribe function or \<open>setState\<close> while the
  broadcast runs. Its body is modelled by the calls it makes, in their order, and the error
  it throws after them, if any; a call of \<open>setState\<close> that throws leaves the body at once
  with that error. The sets are walked as they are at each step, and a \<open>setState\<close> inside
  a callback runs its whole broadcast before the callback goes on. Nothing bounds the
  nesting or the length of a walk: the functions take the number of nested calls they may
  still make and give \<open>None\<close> when it is used up.
\<close>

datatype command =
    CallSubscribe string cb
  | CallUnsubscribe string cb
  | CallSetState string jsval

type_synonym live_behaviour =
  "cb \<Rightarrow> jsval \<Rightarrow> jsval \<Rightarrow> string \<Rightarrow> command list \<times> js_error option"

text \<open>What is run: the rest of the body of a callback; the rest of \<^verbatim>\<open>forEach\<close> over the set of a
  key, from a position on, with the arguments of the calls; the rest of the loop over the
  parent paths; a call of \<open>setState\<close>.\<close>

datatype job =
    Body "command list"
  | Walk string nat jsval jsval string
  | Parents "string list" string nat
  | SetState string jsval

fun live ::
  "nat \<Rightarrow> runtime \<Rightarrow> live_behaviour \<Rightarrow> store \<Rightarrow> job
     \<Rightarrow> (store \<times> event list \<times> js_error option) option" where
  "live 0 rt lb st j = None"
| "live (Suc n) rt lb st (Body []) = Some (st, [], None)"
| "live (Suc n) rt lb st (Body (CallSubscribe p c # cmds)) =
     live n rt lb (fst (subscribe p c st)) (Body cmds)"
| "live (Suc n) rt lb st (Body (CallUnsubscribe p c # cmds)) =
     live n rt lb (unsubscribe (p, c) st) (Body cmds)"
| "live (Suc n) rt lb st (Body (CallSetState p v # cmds)) =
     (case live n rt lb st (SetState p v) of
        None \<Rightarrow> None
      | Some (st1, evs1, Some e) \<Rightarrow> Some (st1, evs1, Some e)
      | Some (st1, evs1, None) \<Rightarrow>
          (case live n rt lb st1 (Body cmds) of
             None \<Rightarrow> None
           | Some (st2, evs2, t) \<Rightarrow> Some (st2, evs1 @ evs2, t)))"
| "live (Suc n) rt lb st (Walk key i nv ov p) =
     (case map_of (subs st) key of
        None \<Rightarrow> Some (st, [], None)
      | Some es \<Rightarrow>
          if i < length es then
            (case es ! i of
               None \<Rightarrow> live n rt lb st (Walk key (i + 1) nv ov p)
             | Some c \<Rightarrow>
                 (case live n rt lb st (Body (fst (lb c nv ov p))) of
                    None \<Rightarrow> None
                  | Some (st1, evs1, t) \<Rightarrow>
                      (case live n rt lb st1 (Walk key (i + 1) nv ov p) of
                         None \<Rightarrow> None
                       | Some (st2, evs2, t2) \<Rightarrow>
                           Some (st2,
                             Called c nv ov p # evs1 @
                             (case t of
                                Some e \<Rightarrow> [ConsoleError e]
                              | None \<Rightarrow>
                                  (case snd (lb c nv ov p) of
                                     Some e \<Rightarrow> [ConsoleError e]
                                   | None \<Rightarrow> [])) @
                             evs2, None))))
          else Some (st, [], None))"
| "live (Suc n) rt lb st (Parents parts path i) =
     (if i < length parts then
        (case map_of (subs st) (join_with CHR ''.'' (take i parts)) of
           None \<Rightarrow> live n rt lb st (Parents parts path (i + 1))
         | Some es \<Rightarrow>
             (case getState rt (tree st) (Some (join_with CHR ''.'' (take i parts))) of
                Inl e \<Rightarrow> Some (st, [], Some e)
              | Inr parentValue \<Rightarrow>
                  (case live n rt lb st
                          (Walk (join_with CHR ''.'' (take i parts)) 0 parentValue Null path) of
                     None \<Rightarrow> None
                   | Some (st1, evs1, t1) \<Rightarrow>
                       (case live n rt lb st1 (Parents parts path (i + 1)) of
                          None \<Rightarrow> None
                        | Some (st2, evs2, t) \<Rightarrow> Some (st2, evs1 @ evs2, t)))))
      else Some (st, [], None))"
| "live (Suc n) rt lb st (SetState path value) =
     (case write_path rt st path value of
        Inl e \<Rightarrow> Some (st, [], Some e)
      | Inr (st', oldValue) \<Rightarrow>
          (case live n rt lb st' (Walk path 0 value oldValue path) of
             None \<Rightarrow> None
           | Some (st1, evs1, t1) \<Rightarrow>
               (case live n rt lb st1 (Parents (path_keys path) path 1) of
                  None \<Rightarrow> None
                | Some (st2, evs2, Some e) \<Rightarrow> Some (st2, evs1 @ evs2, Some e)
                | Some (st2, evs2, None) \<Rightarrow>
                    (case live n rt lb st2 (Walk ''*'' 0 value oldValue path) of
                       None \<Rightarrow> None
                     | Some (st3, evs3, t3) \<Rightarrow> Some (st3, evs1 @ evs2 @ evs3, None)))))"

text \<open>\<open>setState\<close> with callbacks that may call back into the store; \<open>None\<close> when the given
  number of nested calls does not suffice.\<close>

definition setState_live ::
  "nat \<Rightarrow> runtime \<Rightarrow> live_behaviour \<Rightarrow> store \<Rightarrow> string \<Rightarrow> jsval \<Rightarrow> set_result option" where
  "setState_live n rt lb st path value =
     (case live n rt lb st (SetState path value) of
        None \<Rightarrow> None
      | Some (st', evs, t) \<Rightarrow> Some \<lparr>thrown = t, final = st', events = evs\<rparr>)"

text \<open>A behaviour that makes no call, and the errors a behaviour throws.\<close>

definition inert :: "live_behaviour \<Rightarrow> bool" where
  "inert lb = (\<forall>c nv ov p. fst (lb c nv ov p) = [])"

definition errors_of :: "live_behaviour \<Rightarrow> behaviour" where
  "errors_of lb c nv ov p = snd (lb c nv ov p)"

definition only_errors :: "behaviour \<Rightarrow> live_behaviour" where
  "only_errors bh c nv ov p = ([], bh c nv ov p)"

text \<open>A number of nested calls that is enough for a broadcast at \<open>path\<close> when no callback
  calls back into the store.\<close>

definition enough :: "store \<Rightarrow> string \<Rightarrow> nat" where
  "enough st path = length (path_keys path) + sum_list (map (\<lambda>entry. length (snd entry)) (subs st)) + 4"

subsection \<open>The initial state\<close>

definition empty_array :: jsval where
  "empty_array = JArr [] []"

definition initial_tree :: jsval where
  "initial_tree = JObj
     [(''app'', JObj
         [(''initialized'', JBool False), (''online'', JBool False),
          (''lastUpdate'', Null), (''error'', Null)]),
      (''devices'', JObj
         [(''pc'', JObj
             [(''status'', JStr ''disconnected''),
              (''metrics'', JObj
                 [(''cpu'', Null), (''ram'', Null), (''ram_total'', Null),
                  (''disk'', Null), (''disk_total'', Null)])]),
          (''quest_3'', JObj
             [(''status'', JStr ''disconnected''),
              (''metrics'', JObj
                 [(''cpu'', Null), (''ram'', Null), (''ram_total'', Null),
                  (''temp'', Null), (''battery'', Null)])])]),
      (''ui'', JObj
         [(''graphsOpen'', JObj
             [(''pc_cpu'', JBool False), (''pc_ram'', JBool False), (''pc_disk'', JBool False),
              (''quest_cpu'', JBool False), (''quest_ram'', JBool False),
              (''quest_temp'', JBool False), (''quest_battery'', JBool False)]),
          (''recording'', JObj
             [(''active'', JBool False), (''sessionId'', Null),
              (''elapsed'', JNum 0), (''startTime'', Null)]),
          (''diskModalOpen'', JBool False)]),
      (''data'', JObj
         [(''histories'', JObj
             [(''pc'', JObj
                 [(''cpu'', empty_array), (''ram'', empty_array), (''disk'', empty_array)]),
              (''quest_3'', JObj
                 [(''cpu'', empty_array), (''ram'', empty_array),
                  (''temp'', empty_array), (''battery'', empty_array)])]),
          (''disks'', empty_array)])]"

definition initial_store :: store where
  "initial_store = \<lparr>tree = initial_tree, subs = []\<rparr>"

section \<open>Predicates of the specification\<close>


text \<open>
  A key is written as a plain data property of an object or an array when the write stores
  the value under it: not the \<^verbatim>\<open>length\<close> of an array, and not \<^verbatim>\<open>__proto__\<close> unless it is an own
  property. A path is valid when every key but the last names an own property of the
  object before it, and the last key is written as a plain data property of the object
  reached.
\<close>

fun plain_key :: "jsval \<Rightarrow> string \<Rightarrow> bool" where
  "plain_key (JObj kvs) k = (k \<noteq> ''__proto__'' \<or> map_of kvs k \<noteq> None)"
| "plain_key (JArr xs ps) k =
     (k \<noteq> ''length'' \<and> (k \<noteq> ''__proto__'' \<or> map_of ps k \<noteq> None))"
| "plain_key v k = False"

fun valid_path :: "jsval \<Rightarrow> string list \<Rightarrow> bool" where
  "valid_path t [] = False"
| "valid_path t [k] = plain_key t k"
| "valid_path t (k # k' # ks) =
     (case own_prop t k of
        Some child \<Rightarrow> valid_path child (k' # ks)
      | None \<Rightarrow> False)"

text \<open>Every key of a path but the last names an own property that is an object or an
  array.\<close>

fun is_object :: "jsval \<Rightarrow> bool" where
  "is_object (JObj kvs) = True"
| "is_object (JArr xs ps) = True"
| "is_object v = False"

fun intermediate_objects :: "jsval \<Rightarrow> string list \<Rightarrow> bool" where
  "intermediate_objects t [] = True"
| "intermediate_objects t [k] = True"
| "intermediate_objects t (k # k' # ks) =
     (case own_prop t k of
        Some child \<Rightarrow> is_object child \<and> intermediate_objects child (k' # ks)
      | None \<Rightarrow> False)"

text \<open>The descent along the keys arrives at undefined or null, at the root or after any
  of the keys; a key that names no property gives undefined.\<close>

fun reaches_nullish :: "runtime \<Rightarrow> jsval \<Rightarrow> string list \<Rightarrow> bool" where
  "reaches_nullish rt v [] = nullish v"
| "reaches_nullish rt v (k # ks) =
     (nullish v \<or>
      reaches_nullish rt (case lookup_prop rt v k of Some x \<Rightarrow> x | None \<Rightarrow> Undefined) ks)"

text \<open>How often a callback is called in a sequence of events.\<close>

fun called_cb :: "event \<Rightarrow> cb option" where
  "called_cb (Called c nv ov p) = Some c"
| "called_cb (ConsoleError e) = None"

definition calls_of :: "cb \<Rightarrow> event list \<Rightarrow> nat" where
  "calls_of f evs = length (filter (\<lambda>ev. called_cb ev = Some f) evs)"

text \<open>The subscriber sets hold no callback twice: what \<^verbatim>\<open>Set\<close> guarantees.\<close>

definition subs_ok :: "store \<Rightarrow> bool" where
  "subs_ok st = list_all (\<lambda>entry. distinct (members (snd entry))) (subs st)"




text \<open>The strict ancestors of a path, from the shallowest to the deepest: the proper,
  non-empty prefixes of its keys, joined again.\<close>

definition strict_ancestors :: "string \<Rightarrow> string list" where
  "strict_ancestors path =
     map (join_with CHR ''.'') (butlast (tl (prefixes (path_keys path))))"

text \<open>The loop over the parent paths in closed form: what \<open>getState\<close> reads at a
  path, and the calls of the loop, parent by parent.\<close>

definition current_value :: "runtime \<Rightarrow> store \<Rightarrow> string \<Rightarrow> jsval" where
  "current_value rt st path =
     (case getState rt (tree st) (Some path) of Inr x \<Rightarrow> x | Inl e \<Rightarrow> Undefined)"

definition ancestor_tier :: "runtime \<Rightarrow> behaviour \<Rightarrow> store \<Rightarrow> string \<Rightarrow> event list" where
  "ancestor_tier rt bh st path =
     concat (map (\<lambda>anc. notify_path bh (subs st) anc (current_value rt st anc) Null path)
                 (strict_ancestors path))"

text \<open>
  The words of the specification for a broadcast. The value at a path is what the keys of
  the path lead to, undefined when they lead nowhere. A tier is, for each callback of a
  list in its order, the call with the given arguments, followed by the error written to
  the console when the callback throws.
\<close>

fun resolve :: "runtime \<Rightarrow> jsval \<Rightarrow> string list \<Rightarrow> jsval" where
  "resolve rt v [] = v"
| "resolve rt v (k # ks) =
     (if nullish v then Undefined
      else resolve rt (case lookup_prop rt v k of Some x \<Rightarrow> x | None \<Rightarrow> Undefined) ks)"

definition value_at :: "runtime \<Rightarrow> jsval \<Rightarrow> string \<Rightarrow> jsval" where
  "value_at rt t path = resolve rt t (path_keys path)"

definition report :: "behaviour \<Rightarrow> jsval \<Rightarrow> jsval \<Rightarrow> string \<Rightarrow> cb \<Rightarrow> event list" where
  "report bh nv ov p c =
     Called c nv ov p # (case bh c nv ov p of Some e \<Rightarrow> [ConsoleError e] | None \<Rightarrow> [])"

definition tier :: "behaviour \<Rightarrow> cb list \<Rightarrow> jsval \<Rightarrow> jsval \<Rightarrow> string \<Rightarrow> event list" where
  "tier bh cs nv ov p = concat (map (report bh nv ov p) cs)"

text \<open>What the callbacks of an ancestor are given: the value at the ancestor, but the whole
  tree when the ancestor is the empty path (the parent of a path that begins with a
  dot).\<close>

definition ancestor_value :: "runtime \<Rightarrow> jsval \<Rightarrow> string \<Rightarrow> jsval" where
  "ancestor_value rt t anc = (if anc = [] then t else value_at rt t anc)"

section \<open>Concrete stores and behaviours\<close>

text \<open>A store with one subscriber on a leaf, one on its parent and one on the wildcard,
  the store after the leaf is set to \<^verbatim>\<open>true\<close>, and a behaviour under which callback 7
  throws.\<close>

definition three_subscribers :: store where
  "three_subscribers =
     fst (subscribe ''*'' 9 (fst (subscribe ''app'' 8 (fst (subscribe ''app.online'' 7 initial_store)))))"


definition first_throws :: behaviour where
  "first_throws c nv ov p = (if c = 7 then Some (JsError ''Error'' ''boom'') else None)"

text \<open>A store with two subscribers each on a leaf, on its two ancestors and on the
  wildcard, and the values at the ancestors once the status of the leaf is
  \<^verbatim>\<open>connected\<close>.\<close>

definition eight_subscribers :: store where
  "eight_subscribers =
     fst (subscribe ''*'' 8 (fst (subscribe ''*'' 7
    (fst (subscribe ''devices.pc'' 6 (fst (subscribe ''devices.pc'' 5
    (fst (subscribe ''devices'' 4 (fst (subscribe ''devices'' 3
    (fst (subscribe ''devices.pc.status'' 2 (fst (subscribe ''devices.pc.status'' 1
       initial_store)))))))))))))))"

definition pc_connected :: jsval where
  "pc_connected = JObj
     [(''status'', JStr ''connected''),
      (''metrics'', JObj
         [(''cpu'', Null), (''ram'', Null), (''ram_total'', Null),
          (''disk'', Null), (''disk_total'', Null)])]"

definition devices_connected :: jsval where
  "devices_connected = JObj
     [(''pc'', pc_connected),
      (''quest_3'', JObj
         [(''status'', JStr ''disconnected''),
          (''metrics'', JObj
             [(''cpu'', Null), (''ram'', Null), (''ram_total'', Null),
              (''temp'', Null), (''battery'', Null)])])]"

definition connected_tree :: jsval where
  "connected_tree = replace_at initial_tree [''devices'', ''pc''] pc_connected"

text \<open>The store after \<^verbatim>\<open>setState('', {})\<close> and \<^verbatim>\<open>subscribe('', callback)\<close>, and its tree once
  \<^verbatim>\<open>setState('.x', 1)\<close> has run.\<close>

definition dotted_store :: store where
  "dotted_store =
     fst (subscribe '''' 8 (final (setState no_builtins quiet initial_store '''' (JObj []))))"

definition dotted_tree :: jsval where
  "dotted_tree = put_child initial_tree '''' (JObj [(''x'', JNum 1)])"

text \<open>\<open>three_subscribers\<close> after callback 1 has been subscribed twice to the leaf.\<close>

definition subscribed_twice :: store where
  "subscribed_twice =
     fst (subscribe ''app.online'' 1 (fst (subscribe ''app.online'' 1 three_subscribers)))"

text \<open>Callbacks that call back into the store: callback 9 unsubscribes itself from the
  wildcard; callback 7 unsubscribes callback 9 from the wildcard; callback 7 answers the
  value \<^verbatim>\<open>true\<close> by setting \<^verbatim>\<open>app.online\<close> to 0.\<close>

definition self_unsubscribing :: live_behaviour where
  "self_unsubscribing c nv ov p = (if c = 9 then [CallUnsubscribe ''*'' 9] else [], None)"

definition unsubscriber :: live_behaviour where
  "unsubscriber c nv ov p = (if c = 7 then [CallUnsubscribe ''*'' 9] else [], None)"

definition resetting :: live_behaviour where
  "resetting c nv ov p =
     (if c = 7 \<and> nv = JBool True then [CallSetState ''app.online'' (JNum 0)] else [], None)"

section \<open>The request client\<close>

definition MAX_RETRIES :: nat where
  "MAX_RETRIES = 3"

text \<open>What \<^verbatim>\<open>fetch\<close> resolves with, as far as \<open>request\<close> looks at it: the status, and
  what \<^verbatim>\<open>response.json()\<close> settles with (the parsed body, or the error it rejects with when
  the body is not JSON).\<close>

record response =
  status :: nat
  json :: "js_error + jsval"

text \<open>\<^verbatim>\<open>response.ok\<close>: the status is in the range 200 to 299.\<close>

definition response_ok :: "response \<Rightarrow> bool" where
  "response_ok r = (200 \<le> status r \<and> status r \<le> 299)"

text \<open>The remote service and the network: what the \<open>n\<close>-th call of \<^verbatim>\<open>fetch\<close> settles with.
  A rejection is a network failure, or an \<^verbatim>\<open>AbortError\<close> when the timer of the request has
  aborted the call.\<close>

type_synonym server = "nat \<Rightarrow> js_error + response"

text \<open>\<^verbatim>\<open>s.includes(sub)\<close>\<close>

fun str_includes :: "string \<Rightarrow> string \<Rightarrow> bool" where
  "str_includes [] sub = (sub = [])"
| "str_includes (c # s) sub = (prefix sub (c # s) \<or> str_includes s sub)"

text \<open>The truth value of a value under \<^verbatim>\<open>||\<close>, and the conversion to a string that
  \<^verbatim>\<open>new Error(x)\<close> applies to its argument: a string is taken as it is, any other value
  is converted by the runtime.\<close>

fun truthy :: "jsval \<Rightarrow> bool" where
  "truthy Undefined = False"
| "truthy Null = False"
| "truthy (JBool b) = b"
| "truthy (JNum n) = (n \<noteq> 0)"
| "truthy (JStr s) = (s \<noteq> [])"
| "truthy (JObj kvs) = True"
| "truthy (JArr xs ps) = True"

definition js_to_string :: "runtime \<Rightarrow> jsval \<Rightarrow> string" where
  "js_to_string rt v = (case v of JStr s \<Rightarrow> s | _ \<Rightarrow> to_string rt v)"

text \<open>\<^verbatim>\<open>data.error?.message || `HTTP error ${response.status}`\<close>, converted by \<^verbatim>\<open>new Error\<close>.\<close>

definition error_text :: "runtime \<Rightarrow> jsval \<Rightarrow> nat \<Rightarrow> js_error + string" where
  "error_text rt data st =
     (case member rt data ''error'' of
        Inl e \<Rightarrow> Inl e
      | Inr err \<Rightarrow>
          (case opt_member rt err ''message'' of
             Inl e \<Rightarrow> Inl e
           | Inr m \<Rightarrow> Inr (if truthy m then js_to_string rt m else ''HTTP error '' @ string_of_nat st)))"

text \<open>The body of the \<^verbatim>\<open>try\<close> block of one attempt: the parsed body, or the error thrown.\<close>

definition try_block :: "runtime \<Rightarrow> js_error + response \<Rightarrow> js_error + jsval" where
  "try_block rt fetched =
     (case fetched of
        Inl e \<Rightarrow> Inl e
      | Inr resp \<Rightarrow>
          (case json resp of
             Inl e \<Rightarrow> Inl e
           | Inr data \<Rightarrow>
               if \<not> response_ok resp then
                 (case error_text rt data (status resp) of
                    Inl e \<Rightarrow> Inl e
                  | Inr msg \<Rightarrow> Inl (JsError ''Error'' msg))
               else Inr data))"

text \<open>What a call of \<open>request\<close> does that can be seen from outside: the calls of
  \<^verbatim>\<open>fetch\<close>, numbered by the attempt, and the waits between them, in milliseconds.\<close>

datatype action = Fetch nat | Sleep nat

text \<open>
  The loop \<^verbatim>\<open>for (let attempt = 1; attempt <= MAX_RETRIES; attempt++)\<close> with the variable
  \<open>lastError\<close>, followed by \<^verbatim>\<open>throw lastError\<close>. A \<^verbatim>\<open>break\<close> leaves the loop for that
  \<^verbatim>\<open>throw\<close>. The value thrown is \<open>None\<close> when \<open>lastError\<close> was never assigned.
\<close>

function request_loop ::
  "runtime \<Rightarrow> server \<Rightarrow> nat \<Rightarrow> js_error option \<Rightarrow> (js_error option + jsval) \<times> action list" where
  "request_loop rt srv attempt lastError =
     (if attempt \<le> MAX_RETRIES then
        (case try_block rt (srv attempt) of
           Inr data \<Rightarrow> (Inr data, [Fetch attempt])
         | Inl error \<Rightarrow>
             if str_includes (err_message error) ''HTTP error 4'' then
               (Inl (Some error), [Fetch attempt])
             else if err_name error = ''AbortError'' then
               (Inl (Some (JsError ''Error'' ''Request timeout'')), [Fetch attempt])
             else if attempt < MAX_RETRIES then
               (case request_loop rt srv (attempt + 1) (Some error) of
                  (r, acts) \<Rightarrow> (r, Fetch attempt # Sleep (2 ^ attempt * 100) # acts))
             else
               (case request_loop rt srv (attempt + 1) (Some error) of
                  (r, acts) \<Rightarrow> (r, Fetch attempt # acts)))
      else (Inl lastError, []))"
  by pat_completeness auto
termination
  by (relation "measure (\<lambda>(rt, srv, attempt, lastError). MAX_RETRIES + 1 - attempt)") auto

definition request :: "runtime \<Rightarrow> server \<Rightarrow> (js_error option + jsval) \<times> action list" where
  "request rt srv = request_loop rt srv 1 None"

text \<open>A service that settles every call of \<^verbatim>\<open>fetch\<close> alike, and three responses: a 404
  whose body carries a message, a 404 and a 500 whose bodies carry none, and a 500 whose
  body carries a message that quotes a client error.\<close>

definition always :: "js_error + response \<Rightarrow> server" where
  "always r n = r"

definition not_found_with_message :: response where
  "not_found_with_message =
     \<lparr>status = 404,
      json = Inr (JObj [(''success'', JBool False),
                        (''error'', JObj [(''message'', JStr ''Device not found'')])])\<rparr>"

definition not_found_plain :: response where
  "not_found_plain = \<lparr>status = 404, json = Inr (JObj [(''success'', JBool False)])\<rparr>"

definition server_error_quoting :: response where
  "server_error_quoting =
     \<lparr>status = 500,
      json = Inr (JObj [(''success'', JBool False),
                        (''error'', JObj [(''message'', JStr ''upstream said HTTP error 404'')])])\<rparr>"

definition server_error :: response where
  "server_error = \<lparr>status = 500, json = Inr (JObj [(''success'', JBool False)])\<rparr>"


text \<open>An error on which the loop does not \<^verbatim>\<open>break\<close>: its message does not contain
  \<^verbatim>\<open>HTTP error 4\<close> and its name is not \<^verbatim>\<open>AbortError\<close>.\<close>

definition loop_goes_on :: "js_error \<Rightarrow> bool" where
  "loop_goes_on e = (\<not> str_includes (err_message e) ''HTTP error 4'' \<and> err_name e \<noteq> ''AbortError'')"

fun fetches :: "action list \<Rightarrow> nat list" where
  "fetches [] = []"
| "fetches (Fetch a # acts) = a # fetches acts"
| "fetches (Sleep d # acts) = fetches acts"

fun sleeps :: "action list \<Rightarrow> nat list" where
  "sleeps [] = []"
| "sleeps (Fetch a # acts) = sleeps acts"
| "sleeps (Sleep d # acts) = d # sleeps acts"


section \<open>The poll orchestrator\<close>

text \<open>
  \<^verbatim>\<open>app.js\<close> runs on one thread: a timer callback or the continuation of an \<^verbatim>\<open>async\<close>
  function runs without interruption up to its next \<^verbatim>\<open>await\<close>, and other callbacks run
  while it waits. A call of an \<^verbatim>\<open>async\<close> function that waits is a task, named by the
  \<^verbatim>\<open>await\<close> it waits at. The model covers the interval callbacks set by \<open>startPolling\<close>,
  \<open>pollMetrics\<close> as they call it, and the one-shot timer \<open>pollMetrics\<close> sets; the boot
  sequence, the writes to the store and the user interface are left out. Time is not
  modelled: a timer that is set fires at some later step, a request that is awaited
  settles at some later step.
\<close>

datatype endpoint =
    Health | Metrics | Network | Storage | Devices | ConnectionStatus | ConnectionEvents

datatype await =
    AwaitMetrics
  | AwaitHealth
  | AwaitNetwork
  | AwaitStorage
  | AwaitReconnect
  | AwaitDevices
  | AwaitConnectionStatus
  | AwaitConnectionEvents

text \<open>How an awaited request settles: it resolves with an envelope whose \<^verbatim>\<open>success\<close> is
  the given flag, or the \<^verbatim>\<open>try\<close> block around it is left by an exception.\<close>

datatype outcome = Resolved bool | Rejected

text \<open>The variables of the module, the one-shot timers \<open>pollMetrics\<close> has set and that
  have not fired yet (by their delays, oldest first), the tasks that wait, and what the
  user sees: \<^verbatim>\<open>app.online\<close> and the connection banner. \<open>pollTimer\<close> and \<open>devicePollTimer\<close>
  say that the variable holds the handle of a running interval.\<close>

record app =
  pollTimer :: bool
  devicePollTimer :: bool
  isPolling :: bool
  pollCounter :: nat
  timeouts :: "nat list"
  tasks :: "await list"
  online :: bool
  banner :: bool

definition startPolling :: "app \<Rightarrow> app" where
  "startPolling s =
     (if isPolling s then s
      else s\<lparr>isPolling := True, pollTimer := True, devicePollTimer := True\<rparr>)"

definition stopPolling :: "app \<Rightarrow> app" where
  "stopPolling s = s\<lparr>pollTimer := False, devicePollTimer := False, isPolling := False\<rparr>"

text \<open>\<open>checkBackendHealth\<close> returns true when the request resolves with \<^verbatim>\<open>success\<close>.\<close>

definition backend_alive :: "outcome \<Rightarrow> bool" where
  "backend_alive out = (out = Resolved True)"

text \<open>
  A task whose request has settled runs on to its next \<^verbatim>\<open>await\<close>, or to its end: the new
  state, the \<^verbatim>\<open>await\<close> it waits at next, if any, and the requests it has sent.
  \<open>AwaitMetrics\<close> and \<open>AwaitHealth\<close> are the two \<^verbatim>\<open>await\<close>s of \<open>pollMetrics\<close>, called by the
  slow interval callback, which goes on with \<open>pollNetworkStats\<close>, the counter and
  \<open>pollQuestStorage\<close>; \<open>AwaitReconnect\<close> is the \<^verbatim>\<open>await\<close> of the one-shot timer's callback;
  the last three are those of \<open>pollDeviceStatus\<close>, \<open>pollConnectionStatus\<close> and
  \<open>pollConnectionEvents\<close>.
\<close>

fun resume :: "await \<Rightarrow> outcome \<Rightarrow> app \<Rightarrow> app \<times> await option \<times> endpoint list" where
  "resume AwaitMetrics out s =
     (case out of
        Rejected \<Rightarrow> (s, Some AwaitHealth, [Health])
      | Resolved b \<Rightarrow> (s, Some AwaitNetwork, [Network]))"
| "resume AwaitHealth out s =
     (if backend_alive out then (s\<lparr>online := True\<rparr>, Some AwaitNetwork, [Network])
      else ((stopPolling (s\<lparr>online := False, banner := True\<rparr>))\<lparr>timeouts := timeouts s @ [5000]\<rparr>,
            Some AwaitNetwork, [Network]))"
| "resume AwaitNetwork out s =
     (if (pollCounter s + 1) mod 6 = 0
      then (s\<lparr>pollCounter := pollCounter s + 1\<rparr>, Some AwaitStorage, [Storage])
      else (s\<lparr>pollCounter := pollCounter s + 1\<rparr>, None, []))"
| "resume AwaitStorage out s = (s, None, [])"
| "resume AwaitReconnect out s =
     (if backend_alive out then (startPolling (s\<lparr>online := True, banner := False\<rparr>), None, [])
      else (s, None, []))"
| "resume AwaitDevices out s =
     (case out of
        Rejected \<Rightarrow> (s, None, [])
      | Resolved b \<Rightarrow> (s, Some AwaitConnectionStatus, [ConnectionStatus]))"
| "resume AwaitConnectionStatus out s =
     (case out of
        Rejected \<Rightarrow> (s, None, [])
      | Resolved b \<Rightarrow> (s, Some AwaitConnectionEvents, [ConnectionEvents]))"
| "resume AwaitConnectionEvents out s = (s, None, [])"

text \<open>What happens without anybody's intervention: an interval fires, the oldest one-shot
  timer fires, the request of the \<open>i\<close>-th task settles.\<close>

datatype happening = SlowTick | FastTick | TimeoutFires | Settles nat outcome

text \<open>One step: \<open>None\<close> when the happening is not possible in the state, else the new
  state and the requests sent during the step.\<close>

definition step :: "app \<Rightarrow> happening \<Rightarrow> (app \<times> endpoint list) option" where
  "step s h =
     (case h of
        SlowTick \<Rightarrow>
          if pollTimer s then Some (s\<lparr>tasks := tasks s @ [AwaitMetrics]\<rparr>, [Metrics]) else None
      | FastTick \<Rightarrow>
          if devicePollTimer s then Some (s\<lparr>tasks := tasks s @ [AwaitDevices]\<rparr>, [Devices]) else None
      | TimeoutFires \<Rightarrow>
          (case timeouts s of
             [] \<Rightarrow> None
           | d # ds \<Rightarrow> Some (s\<lparr>timeouts := ds, tasks := tasks s @ [AwaitReconnect]\<rparr>, [Health]))
      | Settles i out \<Rightarrow>
          if i < length (tasks s) then
            (case resume (tasks s ! i) out s of
               (s', nxt, reqs) \<Rightarrow>
                 Some (s'\<lparr>tasks := (case nxt of
                                       Some a \<Rightarrow> (tasks s)[i := a]
                                     | None \<Rightarrow> take i (tasks s) @ drop (Suc i) (tasks s))\<rparr>,
                       reqs))
          else None)"

fun run :: "app \<Rightarrow> happening list \<Rightarrow> (app \<times> endpoint list) option" where
  "run s [] = Some (s, [])"
| "run s (h # hs) =
     (case step s h of
        None \<Rightarrow> None
      | Some (s', reqs) \<Rightarrow>
          (case run s' hs of
             None \<Rightarrow> None
           | Some (s'', reqs') \<Rightarrow> Some (s'', reqs @ reqs')))"

text \<open>The state after \<open>startPolling\<close>, five slow cycles in.\<close>

definition polling :: app where
  "polling = \<lparr>pollTimer = True, devicePollTimer = True, isPolling = True, pollCounter = 5,
              timeouts = [], tasks = [], online = True, banner = False\<rparr>"

text \<open>\<open>isPolling\<close> and the two handles are set and cleared together.\<close>

definition coherent :: "app \<Rightarrow> bool" where
  "coherent s = (pollTimer s = isPolling s \<and> devicePollTimer s = isPolling s)"

text \<open>Nothing is pending: no interval runs, no one-shot timer is set, no task waits.\<close>

definition quiescent :: "app \<Rightarrow> bool" where
  "quiescent s = (\<not> pollTimer s \<and> \<not> devicePollTimer s \<and> timeouts s = [] \<and> tasks s = [])"

text \<open>The state of \<open>polling\<close> once the metrics poll of a slow cycle has failed and the
  health probe is awaited, and the state in which the reconnect probe is all that is
  left.\<close>

definition probing :: app where
  "probing = polling\<lparr>tasks := [AwaitHealth]\<rparr>"

definition reconnecting :: app where
  "reconnecting = \<lparr>pollTimer = False, devicePollTimer = False, isPolling = False, pollCounter = 6,
                   timeouts = [], tasks = [AwaitReconnect], online = False, banner = True\<rparr>"

declare parents_loop.simps [simp del] request_loop.simps [simp del] string_of_nat.simps [simp del]

section \<open>Reading a path\<close>

lemma opt_member_returns: "\<exists>r. opt_member rt v k = Inr r"
  by (simp add: opt_member_def member_def)

lemma get_loop_returns: "\<exists>r. get_loop rt v ks = Inr r"
proof (induction ks arbitrary: v)
  case Nil
  show ?case by simp
next
  case (Cons k ks)
  obtain w where "opt_member rt v k = Inr w"
    using opt_member_returns by blast
  with Cons.IH [of w] show ?case by simp
qed

lemma get_loop_Undefined: "get_loop rt Undefined ks = Inr Undefined"
  by (induction ks) (simp_all add: opt_member_def nullish_def)





section \<open>Writing a path\<close>

lemma path_keys_not_Nil: "path_keys p \<noteq> []"
proof -
  have "split_on c s \<noteq> []" for c s
    by (induction s) (auto split: list.split)
  then show ?thesis by (simp add: path_keys_def)
qed

lemma descend_reaches:
  "(case descend rt v ks of Inl e \<Rightarrow> True | Inr obj \<Rightarrow> nullish obj) = reaches_nullish rt v ks"
proof (induction ks arbitrary: v)
  case Nil
  show ?case by simp
next
  case (Cons k ks)
  show ?case
  proof (cases "nullish v")
    case True
    then show ?thesis by (simp add: member_def)
  next
    case False
    then show ?thesis
      using Cons.IH [of "case lookup_prop rt v k of Some x \<Rightarrow> x | None \<Rightarrow> Undefined"]
      by (simp add: member_def)
  qed
qed

lemma member_error: "member rt v k = Inl e \<Longrightarrow> e = type_error"
  by (simp add: member_def split: if_splits)

lemma descend_error: "descend rt v ks = Inl e \<Longrightarrow> e = type_error"
proof (induction ks arbitrary: v)
  case Nil
  then show ?case by simp
next
  case (Cons k ks)
  then show ?case
    by (cases "member rt v k") (auto dest: member_error)
qed

lemma write_path_nullish:
  assumes "reaches_nullish rt (tree st) (butlast (path_keys p))"
  shows "write_path rt st p v = Inl type_error"
proof (cases "descend rt (tree st) (butlast (path_keys p))")
  case (Inl e)
  then have "e = type_error" by (rule descend_error)
  with Inl show ?thesis by (simp add: write_path_def)
next
  case (Inr obj)
  with assms descend_reaches [of rt "tree st" "butlast (path_keys p)"] have "nullish obj"
    by simp
  with Inr show ?thesis by (simp add: write_path_def member_def)
qed

lemma getState_returns: "\<exists>r. getState rt t path = Inr r"
  using get_loop_returns [of rt t] by (simp add: getState_def split: option.split)

lemma parents_loop_no_error: "fst (parents_loop rt bh st parts path i) = None"
proof (induction rt bh st parts path i rule: parents_loop.induct)
  case (1 rt bh st parts path i)
  show ?case
  proof (cases "i < length parts")
    case False
    then show ?thesis by (simp add: parents_loop.simps)
  next
    case True
    let ?pp = "join_with CHR ''.'' (take i parts)"
    show ?thesis
    proof (cases "map_of (subs st) ?pp")
      case None
      with True "1.IH"(1) [of ?pp] show ?thesis
        by (subst parents_loop.simps) simp
    next
      case (Some es)
      obtain pv where pv: "getState rt (tree st) (Some ?pp) = Inr pv"
        using getState_returns by blast
      obtain r evs where rec: "parents_loop rt bh st parts path (i + 1) = (r, evs)"
        by (cases "parents_loop rt bh st parts path (i + 1)")
      with True Some pv "1.IH"(2) [of ?pp es pv] have "r = None" by simp
      with True Some pv rec show ?thesis
        by (subst parents_loop.simps) simp
    qed
  qed
qed

lemma broadcastChange_no_error: "fst (broadcastChange rt bh st path nv ov) = None"
proof -
  obtain r evs where p: "parents_loop rt bh st (path_keys path) path 1 = (r, evs)"
    by (cases "parents_loop rt bh st (path_keys path) path 1")
  with parents_loop_no_error [of rt bh st "path_keys path" path 1] have "r = None" by simp
  with p show ?thesis by (simp add: broadcastChange_def Let_def)
qed

lemma setState_failed:
  "write_path rt st p v = Inl e \<Longrightarrow>
     setState rt bh st p v = \<lparr>thrown = Some e, final = st, events = []\<rparr>"
  by (simp add: setState_def)

lemma setState_written:
  assumes "write_path rt st p v = Inr (st', old)"
  shows "thrown (setState rt bh st p v) = None" and "final (setState rt bh st p v) = st'"
    and "events (setState rt bh st p v) = snd (broadcastChange rt bh st' p v old)"
proof -
  obtain r evs where b: "broadcastChange rt bh st' p v old = (r, evs)"
    by (cases "broadcastChange rt bh st' p v old")
  with broadcastChange_no_error [of rt bh st' p v old] have "r = None" by simp
  with assms b show "thrown (setState rt bh st p v) = None"
    and "final (setState rt bh st p v) = st'"
    and "events (setState rt bh st p v) = snd (broadcastChange rt bh st' p v old)"
    by (simp_all add: setState_def)
qed

lemma setState_thrown_iff:
  "thrown (setState rt bh st p v) \<noteq> None \<longleftrightarrow> (\<exists>e. write_path rt st p v = Inl e)"
proof (cases "write_path rt st p v")
  case (Inl e)
  then show ?thesis by (simp add: setState_failed)
next
  case (Inr w)
  then show ?thesis by (cases w) (simp add: setState_written)
qed


text \<open>
  C9, as amended. When the descent along the keys before the last arrives at undefined or
  null (a key that names no property reads as undefined), \<open>setState\<close> throws a TypeError,
  the store is unchanged and no callback has been called.
\<close>

theorem setState_throws_C9:
  assumes "reaches_nullish rt (tree st) (butlast (path_keys p))"
  shows "thrown (setState rt bh st p v) = Some type_error \<and>
         final (setState rt bh st p v) = st \<and>
         events (setState rt bh st p v) = []"
  using write_path_nullish [OF assms, of v] by (simp add: setState_failed)

theorem setState_throws_C9_witness:
  "2 \<le> length (path_keys ''app.error.code'') \<and>
   reaches_nullish string_builtins (tree (fst (subscribe ''*'' 9 initial_store)))
     (butlast (path_keys ''app.error.code'')) \<and>
   thrown (setState string_builtins quiet (fst (subscribe ''*'' 9 initial_store)) ''app.error.code'' (JNum 1))
     = Some type_error \<and>
   final (setState string_builtins quiet (fst (subscribe ''*'' 9 initial_store)) ''app.error.code'' (JNum 1))
     = fst (subscribe ''*'' 9 initial_store) \<and>
   events (setState string_builtins quiet (fst (subscribe ''*'' 9 initial_store)) ''app.error.code'' (JNum 1))
     = []"
proof -
  have r: "reaches_nullish string_builtins (tree (fst (subscribe ''*'' 9 initial_store)))
     (butlast (path_keys ''app.error.code''))"
    by (simp add: subscribe_def initial_store_def initial_tree_def path_keys_def nullish_def
        lookup_prop_def string_builtins_def)
  have l: "2 \<le> length (path_keys ''app.error.code'')"
    by (simp add: path_keys_def)
  from r l setState_throws_C9 [OF r, of quiet "JNum 1"] show ?thesis by blast
qed

text \<open>A key before the last that resolves to a boolean: \<open>setState\<close> does not throw, and
  the wildcard subscriber is called.\<close>

theorem setState_throws_C9_counterexample:
  "2 \<le> length (path_keys ''app.online.x'') \<and>
   descend no_builtins (tree (fst (subscribe ''*'' 9 initial_store)))
     (butlast (path_keys ''app.online.x'')) = Inr (JBool False) \<and>
   thrown (setState no_builtins quiet (fst (subscribe ''*'' 9 initial_store)) ''app.online.x'' (JNum 1))
     = None \<and>
   events (setState no_builtins quiet (fst (subscribe ''*'' 9 initial_store)) ''app.online.x'' (JNum 1))
     = [Called 9 (JNum 1) Undefined ''app.online.x'']"
  by (simp add: subscribe_def set_add_def initial_store_def initial_tree_def path_keys_def
      setState_def write_path_def member_def nullish_def lookup_prop_def no_builtins_def
      broadcastChange_def notify_path_def parents_loop.simps guarded_call_def invoke_def quiet_def)

section \<open>The broadcast when callbacks return or throw\<close>

subsection \<open>The three tiers\<close>

lemma prefixes_take: "prefixes xs = map (\<lambda>j. take j xs) [0..<Suc (length xs)]"
proof (induction xs)
  case Nil
  show ?case by simp
next
  case (Cons x xs)
  have "[0..<Suc (Suc (length xs))] = 0 # [Suc 0..<Suc (Suc (length xs))]"
    by (rule upt_conv_Cons) simp
  also have "[Suc 0..<Suc (Suc (length xs))] = map Suc [0..<Suc (length xs)]"
    by (rule map_Suc_upt [symmetric])
  finally show ?case
    by (simp only: prefixes.simps Cons.IH length_Cons list.map map_map o_def take_Suc_Cons take_0)
qed

lemma strict_prefixes_take:
  "butlast (tl (prefixes xs)) = map (\<lambda>j. take j xs) [1..<length xs]"
proof -
  have "tl (prefixes xs) = map (\<lambda>j. take j xs) [1..<Suc (length xs)]"
    by (simp add: prefixes_take map_tl [symmetric] upt_conv_Cons del: upt_Suc)
  then show ?thesis
    by (simp add: map_butlast [symmetric])
qed

lemma parents_loop_closed:
  "parents_loop rt bh st parts path i =
     (None, concat (map (\<lambda>j. notify_path bh (subs st) (join_with CHR ''.'' (take j parts))
                              (current_value rt st (join_with CHR ''.'' (take j parts))) Null path)
                        [i..<length parts]))"
proof (induction rt bh st parts path i rule: parents_loop.induct)
  case (1 rt bh st parts path i)
  show ?case
  proof (cases "i < length parts")
    case False
    then show ?thesis by (simp add: parents_loop.simps)
  next
    case True
    let ?pp = "join_with CHR ''.'' (take i parts)"
    from True have u: "[i..<length parts] = i # [i + 1..<length parts]"
      by (simp add: upt_conv_Cons)
    show ?thesis
    proof (cases "map_of (subs st) ?pp")
      case None
      with True "1.IH"(1) [of ?pp] show ?thesis
        by (subst parents_loop.simps) (simp add: u notify_path_def)
    next
      case (Some es)
      obtain pv where pv: "getState rt (tree st) (Some ?pp) = Inr pv"
        using getState_returns by blast
      with True Some "1.IH"(2) [of ?pp es pv] show ?thesis
        by (subst parents_loop.simps) (simp add: u notify_path_def current_value_def)
    qed
  qed
qed

lemma ancestor_tier_upt:
  "ancestor_tier rt bh st path =
     concat (map (\<lambda>j. notify_path bh (subs st) (join_with CHR ''.'' (take j (path_keys path)))
                   (current_value rt st (join_with CHR ''.'' (take j (path_keys path)))) Null path)
                 [1..<length (path_keys path)])"
  by (simp add: ancestor_tier_def strict_ancestors_def strict_prefixes_take o_def)

lemma broadcastChange_tiers:
  "broadcastChange rt bh st path nv ov =
     (None, notify_path bh (subs st) path nv ov path @ ancestor_tier rt bh st path @
            notify_path bh (subs st) ''*'' nv ov path)"
  by (simp add: broadcastChange_def parents_loop_closed ancestor_tier_upt Let_def)

lemma write_path_subs: "write_path rt st p v = Inr (st', old) \<Longrightarrow> subs st' = subs st"
  by (auto simp: write_path_def Let_def split: sum.splits)

lemma events_setState:
  assumes "write_path rt st p v = Inr (st', old)"
  shows "events (setState rt bh st p v) =
     notify_path bh (subs st) p v old p @ ancestor_tier rt bh st' p @
     notify_path bh (subs st) ''*'' v old p"
  using assms write_path_subs [OF assms]
  by (simp add: setState_written broadcastChange_tiers)

subsection \<open>Callbacks that throw\<close>













lemma three_subscribers_eq:
  "three_subscribers =
     \<lparr>tree = initial_tree,
        subs = [(''app.online'', [Some 7]), (''app'', [Some 8]), (''*'', [Some 9])]\<rparr>"
  by (simp add: three_subscribers_def subscribe_def set_add_def initial_store_def)

lemma online_keys: "path_keys ''app.online'' = [''app'', ''online'']"
  by (simp add: path_keys_def)



lemma online_ancestors: "strict_ancestors ''app.online'' = [''app'']"
  by (simp add: strict_ancestors_def online_keys)








section \<open>The broadcast when callbacks call back into the store\<close>

subsection \<open>Callbacks that make no call\<close>

lemma set_size:
  "map_of sb key = Some es \<Longrightarrow> length es \<le> sum_list (map (\<lambda>entry. length (snd entry)) sb)"
proof -
  assume "map_of sb key = Some es"
  then have "(key, es) \<in> set sb" by (rule map_of_SomeD)
  then have "length (snd (key, es)) \<in> set (map (\<lambda>entry. length (snd entry)) sb)"
    by force
  then have "length (snd (key, es)) \<le> sum_list (map (\<lambda>entry. length (snd entry)) sb)"
    by (rule member_le_sum_list) simp
  then show ?thesis by simp
qed

lemma live_Walk_inert:
  assumes "inert lb" and "map_of (subs st) key = Some es"
  shows "length es - i + 2 \<le> n \<Longrightarrow>
     live n rt lb st (Walk key i nv ov p) =
       Some (st, forEach_guarded (errors_of lb) (drop i es) nv ov p, None)"
proof (induction "length es - i" arbitrary: i n)
  case 0
  then have i: "length es \<le> i" by simp
  with 0 obtain m where n: "n = Suc m" by (cases n) auto
  from i assms(2) show ?case by (simp add: n)
next
  case (Suc d)
  then have i: "i < length es" by simp
  with Suc.prems Suc.hyps(2) obtain m where n: "n = Suc m"
    and m: "length es - (i + 1) + 2 \<le> m" "1 \<le> m"
    by (cases n) auto
  from m(2) obtain m' where m': "m = Suc m'" by (cases m) auto
  from Suc.hyps(2) have d: "d = length es - (i + 1)" by simp
  have IH: "live m rt lb st (Walk key (i + 1) nv ov p) =
       Some (st, forEach_guarded (errors_of lb) (drop (i + 1) es) nv ov p, None)"
    using d m(1) by (rule Suc.hyps(1))
  have dr: "drop i es = es ! i # drop (i + 1) es"
    using i by (simp add: Cons_nth_drop_Suc)
  show ?case
  proof (cases "es ! i")
    case None
    with i assms(2) IH show ?thesis by (simp add: n dr)
  next
    case (Some c)
    from assms(1) have b: "fst (lb c nv ov p) = []" by (simp add: inert_def)
    have body: "live m rt lb st (Body []) = Some (st, [], None)" by (simp add: m')
    from i assms(2) IH Some b body show ?thesis
      by (simp add: n dr guarded_call_def invoke_def errors_of_def split: option.split)
  qed
qed


lemma live_Walk_notify:
  assumes "inert lb"
    and "sum_list (map (\<lambda>entry. length (snd entry)) (subs st)) + 2 \<le> n"
  shows "live n rt lb st (Walk key 0 nv ov p) =
     Some (st, notify_path (errors_of lb) (subs st) key nv ov p, None)"
proof (cases "map_of (subs st) key")
  case None
  from assms(2) obtain m where "n = Suc m" by (cases n) auto
  with None show ?thesis by (simp add: notify_path_def)
next
  case (Some es)
  then have "length es \<le> sum_list (map (\<lambda>entry. length (snd entry)) (subs st))"
    by (rule set_size)
  with assms(2) have "length es - 0 + 2 \<le> n" by simp
  with assms(1) Some
  have "live n rt lb st (Walk key 0 nv ov p) =
       Some (st, forEach_guarded (errors_of lb) (drop 0 es) nv ov p, None)"
    by (rule live_Walk_inert)
  with Some show ?thesis by (simp add: notify_path_def)
qed

lemma live_Parents_inert:
  assumes "inert lb"
  shows "length parts - i + sum_list (map (\<lambda>entry. length (snd entry)) (subs st)) + 3 \<le> n \<Longrightarrow>
     live n rt lb st (Parents parts path i) =
       Some (st, snd (parents_loop rt (errors_of lb) st parts path i),
             fst (parents_loop rt (errors_of lb) st parts path i))"
proof (induction "length parts - i" arbitrary: i n)
  case 0
  then have i: "\<not> i < length parts" by simp
  from 0 obtain m where n: "n = Suc m" by (cases n) auto
  from i show ?case by (simp add: n parents_loop.simps [of _ _ _ parts path i])
next
  case (Suc d)
  then have i: "i < length parts" by simp
  with Suc.prems Suc.hyps(2) obtain m where n: "n = Suc m"
    and m: "length parts - (i + 1) + sum_list (map (\<lambda>entry. length (snd entry)) (subs st)) + 3 \<le> m"
    by (cases n) auto
  from Suc.hyps(2) have d: "d = length parts - (i + 1)" by simp
  have IH: "live m rt lb st (Parents parts path (i + 1)) =
       Some (st, snd (parents_loop rt (errors_of lb) st parts path (i + 1)),
             fst (parents_loop rt (errors_of lb) st parts path (i + 1)))"
    using d m by (rule Suc.hyps(1))
  from m have w: "sum_list (map (\<lambda>entry. length (snd entry)) (subs st)) + 2 \<le> m" by simp
  have walk: "live m rt lb st (Walk key 0 nv ov p) =
     Some (st, notify_path (errors_of lb) (subs st) key nv ov p, None)" for key nv ov p
    using assms w by (rule live_Walk_notify)
  show ?case
  proof (cases "map_of (subs st) (join_with CHR ''.'' (take i parts))")
    case None
    with i IH show ?thesis
      by (simp add: n parents_loop.simps [of _ _ _ parts path i])
  next
    case (Some es)
    with i IH walk show ?thesis
      by (simp add: n parents_loop.simps [of _ _ _ parts path i] notify_path_def
          split: sum.split prod.split)
  qed
qed

text \<open>When no callback calls back into the store, a broadcast with enough room is the
  broadcast of the first model.\<close>

lemma setState_live_inert:
  assumes "inert lb" and "enough st p \<le> n"
  shows "setState_live n rt lb st p v = Some (setState rt (errors_of lb) st p v)"
proof -
  from assms(2) obtain m where n: "n = Suc m"
    and m: "length (path_keys p) + sum_list (map (\<lambda>entry. length (snd entry)) (subs st)) + 3 \<le> m"
    by (cases n) (auto simp: enough_def)
  show ?thesis
  proof (cases "write_path rt st p v")
    case (Inl e)
    then show ?thesis by (simp add: setState_live_def setState_def n)
  next
    case (Inr w)
    obtain st' old where w: "w = (st', old)" by (cases w)
    with Inr have s: "subs st' = subs st" by (simp add: write_path_subs)
    from m s have mw: "sum_list (map (\<lambda>entry. length (snd entry)) (subs st')) + 2 \<le> m"
      by simp
    have walk: "live m rt lb st' (Walk key 0 nv ov q) =
       Some (st', notify_path (errors_of lb) (subs st') key nv ov q, None)" for key nv ov q
      using assms(1) mw by (rule live_Walk_notify)
    from m s have
      "length (path_keys p) - 1 + sum_list (map (\<lambda>entry. length (snd entry)) (subs st')) + 3 \<le> m"
      by simp
    with assms(1) have par: "live m rt lb st' (Parents (path_keys p) p 1) =
       Some (st', snd (parents_loop rt (errors_of lb) st' (path_keys p) p 1),
             fst (parents_loop rt (errors_of lb) st' (path_keys p) p 1))"
      by (rule live_Parents_inert)
    from Inr w walk par show ?thesis
      by (simp add: setState_live_def setState_def n broadcastChange_def Let_def
          split: prod.split option.split)
  qed
qed

subsection \<open>The three tiers\<close>

lemma get_loop_resolve: "get_loop rt v ks = Inr (resolve rt v ks)"
proof (induction ks arbitrary: v)
  case Nil
  show ?case by simp
next
  case (Cons k ks)
  show ?case
  proof (cases "nullish v")
    case True
    have "resolve rt Undefined ks = Undefined"
      by (cases ks) (simp_all add: nullish_def)
    with True show ?thesis by (simp add: opt_member_def get_loop_Undefined)
  next
    case False
    with Cons.IH show ?thesis by (simp add: opt_member_def member_def)
  qed
qed

lemma current_value_ancestor: "current_value rt st anc = ancestor_value rt (tree st) anc"
  by (simp add: current_value_def getState_def ancestor_value_def value_at_def get_loop_resolve)

lemma descend_member_resolve:
  "ks \<noteq> [] \<Longrightarrow> descend rt t (butlast ks) = Inr obj \<Longrightarrow> member rt obj (last ks) = Inr old
     \<Longrightarrow> resolve rt t ks = old"
proof (induction ks arbitrary: t)
  case Nil
  then show ?case by simp
next
  case (Cons k ks)
  show ?case
  proof (cases "ks = []")
    case True
    with Cons.prems show ?thesis
      by (auto simp: member_def split: if_splits)
  next
    case False
    with Cons.prems obtain o' where m: "member rt t k = Inr o'"
      and d: "descend rt o' (butlast ks) = Inr obj"
      by (auto split: sum.splits)
    from False d Cons.prems(3) have "resolve rt o' ks = old"
      by (intro Cons.IH) simp_all
    with m show ?thesis
      by (auto simp: member_def split: if_splits)
  qed
qed

lemma write_path_old:
  assumes "write_path rt st p v = Inr (st', old)"
  shows "old = value_at rt (tree st) p"
proof -
  from assms obtain obj where d: "descend rt (tree st) (butlast (path_keys p)) = Inr obj"
    and m: "member rt obj (last (path_keys p)) = Inr old"
    by (auto simp: write_path_def Let_def split: sum.splits)
  with path_keys_not_Nil [of p] have "resolve rt (tree st) (path_keys p) = old"
    by (rule descend_member_resolve)
  then show ?thesis by (simp add: value_at_def)
qed

lemma forEach_tier: "forEach_guarded bh es nv ov p = tier bh (members es) nv ov p"
  by (induction bh es nv ov p rule: forEach_guarded.induct)
    (simp_all add: tier_def report_def guarded_call_def invoke_def split: option.split)

lemma notify_path_tier:
  "notify_path bh (subs st) key nv ov p = tier bh (callbacks_at st key) nv ov p"
  by (simp add: notify_path_def callbacks_at_def forEach_tier tier_def split: option.split)

lemma callbacks_at_tree: "callbacks_at (st\<lparr>tree := t\<rparr>) key = callbacks_at st key"
  by (simp add: callbacks_at_def)

lemma events_setState_tiers:
  assumes "write_path rt st p v = Inr (st', old)"
  shows "events (setState rt bh st p v) =
     tier bh (callbacks_at st p) v (value_at rt (tree st) p) p @
     concat (map (\<lambda>anc. tier bh (callbacks_at st anc) (ancestor_value rt (tree st') anc) Null p)
                 (strict_ancestors p)) @
     tier bh (callbacks_at st ''*'') v (value_at rt (tree st) p) p"
proof -
  have s: "subs st' = subs st" using assms by (rule write_path_subs)
  then have c: "callbacks_at st' key = callbacks_at st key" for key
    by (simp add: callbacks_at_def)
  have "ancestor_tier rt bh st' p =
     concat (map (\<lambda>anc. tier bh (callbacks_at st anc) (ancestor_value rt (tree st') anc) Null p)
                 (strict_ancestors p))"
    by (simp add: ancestor_tier_def notify_path_tier current_value_ancestor c)
  with assms write_path_old [OF assms] show ?thesis
    by (simp add: events_setState notify_path_tier)
qed

text \<open>
  C1, as amended. A call of \<open>setState\<close>, when no callback calls back into the store while
  the broadcast runs, comes to its end; when it returns without an error, the callbacks
  have been called in three tiers, in this order: those registered at the path itself, in
  the order of their registration, with the value, the previous value and the path; then,
  for every strict ancestor of the path, from the shallowest to the deepest, its callbacks
  with the value now at the ancestor (the whole tree for the empty ancestor), null and the
  path; then those of the wildcard with the value, the previous value and the path. A call
  that throws is followed by its error on the console.
\<close>

theorem broadcast_order_C1:
  assumes "inert lb" and "enough st p \<le> n"
  shows "\<exists>r. setState_live n rt lb st p v = Some r \<and>
     (thrown r = None \<longrightarrow>
        events r =
          tier (errors_of lb) (callbacks_at st p) v (value_at rt (tree st) p) p @
          concat (map (\<lambda>anc. tier (errors_of lb) (callbacks_at st anc)
                               (ancestor_value rt (tree (final r)) anc) Null p)
                      (strict_ancestors p)) @
          tier (errors_of lb) (callbacks_at st ''*'') v (value_at rt (tree st) p) p)"
proof -
  let ?r = "setState rt (errors_of lb) st p v"
  have live: "setState_live n rt lb st p v = Some ?r"
    using assms by (rule setState_live_inert)
  have "events ?r =
          tier (errors_of lb) (callbacks_at st p) v (value_at rt (tree st) p) p @
          concat (map (\<lambda>anc. tier (errors_of lb) (callbacks_at st anc)
                               (ancestor_value rt (tree (final ?r)) anc) Null p)
                      (strict_ancestors p)) @
          tier (errors_of lb) (callbacks_at st ''*'') v (value_at rt (tree st) p) p"
    if "thrown ?r = None"
  proof -
    from that obtain st' old where w: "write_path rt st p v = Inr (st', old)"
      using setState_thrown_iff [of rt "errors_of lb" st p v]
      by (cases "write_path rt st p v") auto
    then have "final ?r = st'" by (rule setState_written)
    with w show ?thesis by (simp add: events_setState_tiers)
  qed
  with live show ?thesis by simp
qed

lemma eight_subscribers_eq:
  "eight_subscribers =
     \<lparr>tree = initial_tree,
        subs = [(''devices.pc.status'', [Some 1, Some 2]), (''devices'', [Some 3, Some 4]),
                (''devices.pc'', [Some 5, Some 6]), (''*'', [Some 7, Some 8])]\<rparr>"
  by (simp add: eight_subscribers_def subscribe_def set_add_def initial_store_def)

lemma status_keys: "path_keys ''devices.pc.status'' = [''devices'', ''pc'', ''status'']"
  by (simp add: path_keys_def)

lemma set_status_written:
  "write_path no_builtins eight_subscribers ''devices.pc.status'' (JStr ''connected'') =
     Inr (eight_subscribers\<lparr>tree := connected_tree\<rparr>,
          JStr ''disconnected'')"
  by (simp add: write_path_def status_keys eight_subscribers_eq connected_tree_def initial_tree_def
      pc_connected_def member_def nullish_def lookup_prop_def no_builtins_def)

lemma status_ancestors: "strict_ancestors ''devices.pc.status'' = [''devices'', ''devices.pc'']"
  by (simp add: strict_ancestors_def status_keys)

lemma status_ancestor_values:
  "ancestor_value no_builtins connected_tree ''devices'' =
     devices_connected"
  "ancestor_value no_builtins connected_tree ''devices.pc'' =
     pc_connected"
  by (simp_all add: ancestor_value_def value_at_def path_keys_def connected_tree_def initial_tree_def
      devices_connected_def nullish_def lookup_prop_def no_builtins_def pc_connected_def)

lemma status_previous:
  "value_at no_builtins (tree eight_subscribers) ''devices.pc.status'' = JStr ''disconnected''"
  by (simp add: value_at_def status_keys eight_subscribers_eq initial_tree_def nullish_def
      lookup_prop_def no_builtins_def)

lemma eight_callbacks:
  "callbacks_at eight_subscribers ''devices.pc.status'' = [1, 2]"
  "callbacks_at eight_subscribers ''devices'' = [3, 4]"
  "callbacks_at eight_subscribers ''devices.pc'' = [5, 6]"
  "callbacks_at eight_subscribers ''*'' = [7, 8]"
  by (simp_all add: callbacks_at_def eight_subscribers_eq)

lemma inert_only_errors: "inert (only_errors bh)"
  by (simp add: inert_def only_errors_def)

lemma errors_of_only_errors: "errors_of (only_errors bh) = bh"
  by (simp add: errors_of_def only_errors_def fun_eq_iff)

theorem broadcast_order_C1_witness:
  "inert (only_errors first_throws) \<and>
   enough eight_subscribers ''devices.pc.status'' \<le> 15 \<and>
   map_option thrown (setState_live 15 no_builtins (only_errors first_throws) eight_subscribers
      ''devices.pc.status'' (JStr ''connected'')) = Some None \<and>
   map_option events (setState_live 15 no_builtins (only_errors first_throws) eight_subscribers
      ''devices.pc.status'' (JStr ''connected'')) =
     Some [Called 1 (JStr ''connected'') (JStr ''disconnected'') ''devices.pc.status'',
           Called 2 (JStr ''connected'') (JStr ''disconnected'') ''devices.pc.status'',
           Called 3 devices_connected Null ''devices.pc.status'',
           Called 4 devices_connected Null ''devices.pc.status'',
           Called 5 pc_connected Null ''devices.pc.status'',
           Called 6 pc_connected Null ''devices.pc.status'',
           Called 7 (JStr ''connected'') (JStr ''disconnected'') ''devices.pc.status'',
           ConsoleError (JsError ''Error'' ''boom''),
           Called 8 (JStr ''connected'') (JStr ''disconnected'') ''devices.pc.status'']"
proof -
  have i: "inert (only_errors first_throws)" by (rule inert_only_errors)
  have n: "enough eight_subscribers ''devices.pc.status'' \<le> 15"
    by (simp add: enough_def status_keys eight_subscribers_eq)
  have live: "setState_live 15 no_builtins (only_errors first_throws) eight_subscribers
      ''devices.pc.status'' (JStr ''connected'') =
      Some (setState no_builtins first_throws eight_subscribers ''devices.pc.status'' (JStr ''connected''))"
    using setState_live_inert [OF i n] by (simp add: errors_of_only_errors)
  have t: "thrown (setState no_builtins first_throws eight_subscribers ''devices.pc.status''
      (JStr ''connected'')) = None"
    using set_status_written by (rule setState_written)
  have f: "tree (final (setState no_builtins first_throws eight_subscribers ''devices.pc.status''
      (JStr ''connected''))) = connected_tree"
    using setState_written(2) [OF set_status_written] by simp
  from broadcast_order_C1 [OF i n, of no_builtins "JStr ''connected''"] live t f i n
  show ?thesis
    by (simp add: errors_of_only_errors eight_callbacks status_ancestors status_ancestor_values
        status_previous tier_def report_def first_throws_def)
qed

text \<open>
  Two broadcasts that are not as C1 says. A path that begins with a dot has the empty
  string as its parent, and \<open>getState\<close> returns the whole tree for it: the subscriber of
  the empty path is not given the value at that path. And a subscriber of the path that
  unsubscribes the subscriber of the wildcard while the broadcast runs: the subscriber of
  the wildcard, registered when \<open>setState\<close> was called, is not called.
\<close>

theorem broadcast_order_C1_counterexample:
  "strict_ancestors ''.x'' = [''''] \<and>
   callbacks_at dotted_store '''' = [8] \<and>
   map_option (\<lambda>r. (thrown r, tree (final r), events r))
     (setState_live 7 no_builtins (only_errors quiet) dotted_store ''.x'' (JNum 1)) =
     Some (None, dotted_tree, [Called 8 dotted_tree Null ''.x'']) \<and>
   value_at no_builtins dotted_tree '''' = JObj [(''x'', JNum 1)] \<and>
   dotted_tree \<noteq> JObj [(''x'', JNum 1)] \<and>
   callbacks_at three_subscribers ''*'' = [9] \<and>
   map_option (\<lambda>r. (thrown r, events r))
     (setState_live 7 no_builtins unsubscriber three_subscribers ''app.online'' (JBool True)) =
     Some (None,
           [Called 7 (JBool True) (JBool False) ''app.online'',
            Called 8 (JObj [(''initialized'', JBool False), (''online'', JBool True),
                            (''lastUpdate'', Null), (''error'', Null)]) Null ''app.online''])"
  by code_simp

subsection \<open>Counting calls\<close>

lemma calls_of_append: "calls_of f (xs @ ys) = calls_of f xs + calls_of f ys"
  by (simp add: calls_of_def)

lemma calls_of_tier: "calls_of f (tier bh cs nv ov p) = count_list cs f"
  by (induction cs) (auto simp: calls_of_def tier_def report_def split: option.split)

lemma calls_of_tier_absent: "f \<notin> set cs \<Longrightarrow> calls_of f (tier bh cs nv ov p) = 0"
  by (simp add: calls_of_tier)

lemma calls_of_concat_absent:
  "(\<And>xs. xs \<in> set xss \<Longrightarrow> calls_of f xs = 0) \<Longrightarrow> calls_of f (concat xss) = 0"
  by (induction xss) (simp_all add: calls_of_append, simp add: calls_of_def)

lemma count_list_distinct: "distinct cs \<Longrightarrow> f \<in> set cs \<Longrightarrow> count_list cs f = 1"
  by (induction cs) auto

lemma subs_ok_distinct: "subs_ok st \<Longrightarrow> distinct (callbacks_at st p)"
proof -
  assume ok: "subs_ok st"
  show ?thesis
  proof (cases "map_of (subs st) p")
    case None
    then show ?thesis by (simp add: callbacks_at_def)
  next
    case (Some es)
    then have "(p, es) \<in> set (subs st)" by (rule map_of_SomeD)
    with ok have "distinct (members es)" by (auto simp: subs_ok_def list_all_iff)
    with Some show ?thesis by (simp add: callbacks_at_def)
  qed
qed

lemma star_keys: "path_keys ''*'' = [''*'']"
  by (simp add: path_keys_def)

lemma star_ancestors: "strict_ancestors ''*'' = []"
  by (simp add: strict_ancestors_def star_keys)

lemma star_no_index: "index_of ''*'' = None"
  by (simp add: index_of_def digit_of_def)

lemma write_path_star:
  assumes "\<not> nullish (tree st)"
  shows "\<exists>st' old. write_path rt st ''*'' v = Inr (st', old)"
proof -
  have "\<exists>t'. assign rt (tree st) ''*'' v = Inr t'"
    using assms by (cases "tree st") (simp_all add: nullish_def star_no_index)
  with assms show ?thesis
    by (auto simp: write_path_def star_keys member_def)
qed

text \<open>
  C10, as amended. When no callback calls back into the store while the broadcast runs, a
  callback subscribed to the wildcard path is called exactly twice by \<open>setState\<close> on the
  path \<^verbatim>\<open>*\<close>: in the exact tier and in the wildcard tier.
\<close>

theorem wildcard_twice_C10:
  assumes "inert lb" and "subs_ok st" and "\<not> nullish (tree st)"
    and "f \<in> set (callbacks_at st ''*'')" and "enough st ''*'' \<le> n"
  shows "\<exists>r. setState_live n rt lb st ''*'' v = Some r \<and> thrown r = None \<and>
           calls_of f (events r) = 2"
proof -
  let ?r = "setState rt (errors_of lb) st ''*'' v"
  have live: "setState_live n rt lb st ''*'' v = Some ?r"
    using assms(1,5) by (rule setState_live_inert)
  from assms(3) obtain st' old where w: "write_path rt st ''*'' v = Inr (st', old)"
    using write_path_star by blast
  then have t: "thrown ?r = None" by (rule setState_written)
  from assms(2) have "distinct (callbacks_at st ''*'')" by (rule subs_ok_distinct)
  then have "count_list (callbacks_at st ''*'') f = 1"
    using assms(4) by (rule count_list_distinct)
  then have "calls_of f (events ?r) = 2"
    by (simp add: events_setState_tiers [OF w] star_ancestors calls_of_append calls_of_tier)
  with live t show ?thesis by simp
qed

theorem wildcard_twice_C10_witness:
  "inert (only_errors quiet) \<and>
   subs_ok (fst (subscribe ''*'' 9 initial_store)) \<and>
   \<not> nullish (tree (fst (subscribe ''*'' 9 initial_store))) \<and>
   9 \<in> set (callbacks_at (fst (subscribe ''*'' 9 initial_store)) ''*'') \<and>
   enough (fst (subscribe ''*'' 9 initial_store)) ''*'' \<le> 6 \<and>
   map_option (\<lambda>r. calls_of 9 (events r))
     (setState_live 6 no_builtins (only_errors quiet) (fst (subscribe ''*'' 9 initial_store))
        ''*'' (JNum 1)) = Some 2"
proof -
  have i: "inert (only_errors quiet)" by (rule inert_only_errors)
  have a: "subs_ok (fst (subscribe ''*'' 9 initial_store))"
    by (simp add: subs_ok_def subscribe_def set_add_def initial_store_def)
  have b: "\<not> nullish (tree (fst (subscribe ''*'' 9 initial_store)))"
    by (simp add: subscribe_def initial_store_def initial_tree_def nullish_def)
  have c: "9 \<in> set (callbacks_at (fst (subscribe ''*'' 9 initial_store)) ''*'')"
    by (simp add: callbacks_at_def subscribe_def set_add_def initial_store_def)
  have n: "enough (fst (subscribe ''*'' 9 initial_store)) ''*'' \<le> 6"
    by (simp add: enough_def star_keys subscribe_def set_add_def initial_store_def)
  from wildcard_twice_C10 [OF i a b c n, of no_builtins "JNum 1"] i a b c n show ?thesis
    by auto
qed

theorem wildcard_twice_C10_counterexample:
  "9 \<in> set (callbacks_at (fst (subscribe ''*'' 9 initial_store)) ''*'') \<and>
   map_option events
     (setState_live 6 no_builtins self_unsubscribing (fst (subscribe ''*'' 9 initial_store))
        ''*'' (JNum 1)) = Some [Called 9 (JNum 1) Undefined ''*''] \<and>
   map_option (\<lambda>r. calls_of 9 (events r))
     (setState_live 6 no_builtins self_unsubscribing (fst (subscribe ''*'' 9 initial_store))
        ''*'' (JNum 1)) = Some 1"
  by code_simp

subsection \<open>Subscribing and unsubscribing\<close>

lemma members_mem: "Some x \<in> set es \<longleftrightarrow> x \<in> set (members es)"
  by (induction es rule: members.induct) auto

lemma members_append: "members (xs @ ys) = members xs @ members ys"
  by (induction xs rule: members.induct) simp_all

lemma members_set_add:
  "members (set_add f es) = (if f \<in> set (members es) then members es else members es @ [f])"
  by (simp add: set_add_def members_mem members_append)

lemma members_set_delete: "members (set_delete f es) = removeAll f (members es)"
  by (induction es rule: members.induct) (auto simp: set_delete_def)

lemma length_set_delete: "length (set_delete f es) = length es"
  by (simp add: set_delete_def)

lemma callbacks_at_subscribe:
  "callbacks_at (fst (subscribe p f st)) key =
     (if key = p
      then (if f \<in> set (callbacks_at st p) then callbacks_at st p else callbacks_at st p @ [f])
      else callbacks_at st key)"
  by (auto simp: subscribe_def callbacks_at_def Let_def update_conv' members_set_add
      split: option.split)

lemma callbacks_at_unsubscribe:
  "callbacks_at (unsubscribe (p, f) st) key =
     (if key = p then removeAll f (callbacks_at st p) else callbacks_at st key)"
  by (auto simp: unsubscribe_def callbacks_at_def update_conv' members_set_delete
      split: option.split)

lemma subscribe_handle: "snd (subscribe p f st) = (p, f)"
  by (simp add: subscribe_def Let_def)

lemma subscribe_twice: "fst (subscribe p f (fst (subscribe p f st))) = fst (subscribe p f st)"
proof -
  let ?s1 = "fst (subscribe p f st)"
  obtain es where m: "map_of (subs ?s1) p = Some es" and f: "Some f \<in> set es"
    by (auto simp: subscribe_def Let_def update_conv' set_add_def split: option.split)
  then have "set_add f es = es" by (simp add: set_add_def)
  with m have "AList.update p (set_add f es) (subs ?s1) = subs ?s1"
    by (simp add: update_triv)
  with m show ?thesis
    by (simp add: subscribe_def [of p f ?s1] Let_def)
qed

text \<open>The sets hold no callback twice, from the start and after every call.\<close>

lemma list_all_update:
  "list_all P al \<Longrightarrow> P (k, v) \<Longrightarrow> list_all P (AList.update k v al)"
  by (induction al) auto

lemma subs_ok_initial: "subs_ok initial_store"
  by (simp add: subs_ok_def initial_store_def)

lemma subs_ok_subscribe: "subs_ok st \<Longrightarrow> subs_ok (fst (subscribe p f st))"
proof -
  assume ok: "subs_ok st"
  let ?sb = "if map_of (subs st) p = None then AList.update p [] (subs st) else subs st"
  let ?es = "case map_of ?sb p of None \<Rightarrow> [] | Some es \<Rightarrow> es"
  from ok have sb: "list_all (\<lambda>entry. distinct (members (snd entry))) ?sb"
    by (simp add: subs_ok_def list_all_update)
  have "members ?es = callbacks_at st p"
    by (simp add: callbacks_at_def update_conv' split: option.split)
  with ok have "distinct (members (set_add f ?es))"
    using subs_ok_distinct [of st p] by (simp add: members_set_add)
  with sb have "list_all (\<lambda>entry. distinct (members (snd entry)))
      (AList.update p (set_add f ?es) ?sb)"
    by (intro list_all_update) simp_all
  then show ?thesis
    by (simp add: subs_ok_def subscribe_def Let_def)
qed

lemma subs_ok_unsubscribe: "subs_ok st \<Longrightarrow> subs_ok (unsubscribe u st)"
proof (cases "map_of (subs st) (fst u)")
  case None
  assume "subs_ok st"
  with None show ?thesis by (simp add: unsubscribe_def)
next
  case (Some es)
  assume ok: "subs_ok st"
  with Some have "distinct (members es)"
    using subs_ok_distinct [of st "fst u"] by (simp add: callbacks_at_def)
  then have "distinct (members (set_delete (snd u) es))"
    by (simp add: members_set_delete distinct_removeAll)
  with ok have "list_all (\<lambda>entry. distinct (members (snd entry)))
      (AList.update (fst u) (set_delete (snd u) es) (subs st))"
    by (intro list_all_update) (simp_all add: subs_ok_def)
  with Some show ?thesis
    by (simp add: subs_ok_def unsubscribe_def)
qed

lemma subs_setState: "subs (final (setState rt bh st p v)) = subs st"
proof (cases "write_path rt st p v")
  case (Inl e)
  then show ?thesis by (simp add: setState_failed)
next
  case (Inr w)
  then show ?thesis by (cases w) (simp add: setState_written write_path_subs)
qed

lemma sum_list_update:
  "map_of al k = Some es \<Longrightarrow> length es' = length es \<Longrightarrow>
     sum_list (map (\<lambda>entry. length (snd entry)) (AList.update k es' al)) =
     sum_list (map (\<lambda>entry. length (snd entry)) al)"
  by (induction al) (auto split: if_splits)

lemma enough_unsubscribe: "enough (unsubscribe u st) p = enough st p"
  by (cases "map_of (subs st) (fst u)")
    (simp_all add: enough_def unsubscribe_def sum_list_update length_set_delete)

lemma calls_of_setState_absent:
  assumes "f \<notin> set (callbacks_at st p)" and "f \<notin> set (callbacks_at st ''*'')"
    and "\<forall>anc \<in> set (strict_ancestors p). f \<notin> set (callbacks_at st anc)"
  shows "calls_of f (events (setState rt bh st p v)) = 0"
proof (cases "write_path rt st p v")
  case (Inl e)
  then show ?thesis by (simp add: setState_failed calls_of_def)
next
  case (Inr w)
  obtain st' old where w: "w = (st', old)" by (cases w)
  from assms(3) have "calls_of f (concat (map (\<lambda>anc. tier bh (callbacks_at st anc)
      (ancestor_value rt (tree st') anc) Null p) (strict_ancestors p))) = 0"
    by (intro calls_of_concat_absent) (auto simp: calls_of_tier)
  with Inr w assms(1,2) show ?thesis
    by (simp add: events_setState_tiers calls_of_append calls_of_tier)
qed

lemma calls_of_setState_exact:
  assumes "write_path rt st p v = Inr (st', old)"
    and "f \<notin> set (callbacks_at st ''*'')"
    and "\<forall>anc \<in> set (strict_ancestors p). f \<notin> set (callbacks_at st anc)"
  shows "calls_of f (events (setState rt bh st p v)) = count_list (callbacks_at st p) f"
proof -
  from assms(3) have "calls_of f (concat (map (\<lambda>anc. tier bh (callbacks_at st anc)
      (ancestor_value rt (tree st') anc) Null p) (strict_ancestors p))) = 0"
    by (intro calls_of_concat_absent) (auto simp: calls_of_tier)
  with assms(1,2) show ?thesis
    by (simp add: events_setState_tiers calls_of_append calls_of_tier)
qed

text \<open>
  C3, as amended. When a callback is registered twice for a path, the second registration
  changes nothing: the store is the one after the first registration. When the callback is
  registered at no strict ancestor of the path and not at the wildcard, and no callback
  calls back into the store while the broadcast runs, a call of \<open>setState\<close> at the path
  that returns without an error has called it once. After the function returned by either
  of the two calls of \<open>subscribe\<close> has run, no registration is left: a call of \<open>setState\<close>
  at the path does not call it.
\<close>

theorem subscribe_twice_C3:
  assumes "subs_ok st" and "inert lb"
    and "st2 = fst (subscribe p f (fst (subscribe p f st)))"
    and "f \<notin> set (callbacks_at st2 ''*'')"
    and "\<forall>anc \<in> set (strict_ancestors p). f \<notin> set (callbacks_at st2 anc)"
    and "enough st2 p \<le> n"
  shows "st2 = fst (subscribe p f st) \<and>
     (\<exists>r. setState_live n rt lb st2 p v = Some r \<and>
          (thrown r = None \<longrightarrow> calls_of f (events r) = 1)) \<and>
     (\<exists>r. setState_live n rt lb (unsubscribe (snd (subscribe p f st)) st2) p v = Some r \<and>
          calls_of f (events r) = 0) \<and>
     (\<exists>r. setState_live n rt lb
            (unsubscribe (snd (subscribe p f (fst (subscribe p f st)))) st2) p v = Some r \<and>
          calls_of f (events r) = 0)"
proof -
  have tw: "st2 = fst (subscribe p f st)"
    using assms(3) by (simp add: subscribe_twice)
  have mem: "f \<in> set (callbacks_at st2 p)"
    by (simp add: tw callbacks_at_subscribe)
  from assms(1) have "subs_ok st2"
    unfolding tw by (rule subs_ok_subscribe)
  then have "distinct (callbacks_at st2 p)" by (rule subs_ok_distinct)
  then have one: "count_list (callbacks_at st2 p) f = 1"
    using mem by (rule count_list_distinct)
  let ?r = "setState rt (errors_of lb) st2 p v"
  have live: "setState_live n rt lb st2 p v = Some ?r"
    using assms(2,6) by (rule setState_live_inert)
  have "calls_of f (events ?r) = 1" if "thrown ?r = None"
  proof -
    from that obtain st' old where w: "write_path rt st2 p v = Inr (st', old)"
      using setState_thrown_iff [of rt "errors_of lb" st2 p v]
      by (cases "write_path rt st2 p v") auto
    from w assms(4,5) have "calls_of f (events ?r) = count_list (callbacks_at st2 p) f"
      by (rule calls_of_setState_exact)
    with one show ?thesis by simp
  qed
  with live have a: "\<exists>r. setState_live n rt lb st2 p v = Some r \<and>
          (thrown r = None \<longrightarrow> calls_of f (events r) = 1)"
    by simp
  let ?u = "unsubscribe (p, f) st2"
  let ?q = "setState rt (errors_of lb) ?u p v"
  from assms(6) have "enough ?u p \<le> n" by (simp add: enough_unsubscribe)
  with assms(2) have live': "setState_live n rt lb ?u p v = Some ?q"
    by (rule setState_live_inert)
  have "f \<notin> set (callbacks_at ?u p)" by (simp add: callbacks_at_unsubscribe)
  moreover from assms(4) have "f \<notin> set (callbacks_at ?u ''*'')"
    by (simp add: callbacks_at_unsubscribe)
  moreover from assms(5) have "\<forall>anc \<in> set (strict_ancestors p). f \<notin> set (callbacks_at ?u anc)"
    by (simp add: callbacks_at_unsubscribe)
  ultimately have "calls_of f (events ?q) = 0" by (rule calls_of_setState_absent)
  with live' have b: "\<exists>r. setState_live n rt lb ?u p v = Some r \<and> calls_of f (events r) = 0"
    by simp
  from tw a b show ?thesis by (simp add: subscribe_handle)
qed

lemma subscribed_twice_eq:
  "subscribed_twice =
     \<lparr>tree = initial_tree,
        subs = [(''app.online'', [Some 7, Some 1]), (''app'', [Some 8]), (''*'', [Some 9])]\<rparr>"
  by (simp add: subscribed_twice_def three_subscribers_eq subscribe_def set_add_def)

lemma subs_ok_three_subscribers: "subs_ok three_subscribers"
  by (simp add: subs_ok_def three_subscribers_eq)

lemma set_online_twice_thrown:
  "thrown (setState no_builtins bh subscribed_twice ''app.online'' (JBool True)) = None"
proof -
  have "\<exists>w. write_path no_builtins subscribed_twice ''app.online'' (JBool True) = Inr w"
    by (simp add: write_path_def online_keys subscribed_twice_eq initial_tree_def
        member_def nullish_def lookup_prop_def no_builtins_def)
  then obtain st' old where
    "write_path no_builtins subscribed_twice ''app.online'' (JBool True) = Inr (st', old)"
    by auto
  then show ?thesis by (rule setState_written)
qed

theorem subscribe_twice_C3_witness:
  "subs_ok three_subscribers \<and> inert (only_errors quiet) \<and>
   1 \<notin> set (callbacks_at subscribed_twice ''*'') \<and>
   strict_ancestors ''app.online'' = [''app''] \<and>
   1 \<notin> set (callbacks_at subscribed_twice ''app'') \<and>
   enough subscribed_twice ''app.online'' \<le> 10 \<and>
   subscribed_twice = fst (subscribe ''app.online'' 1 three_subscribers) \<and>
   map_option (\<lambda>r. (thrown r, calls_of 1 (events r)))
     (setState_live 10 no_builtins (only_errors quiet) subscribed_twice ''app.online'' (JBool True)) =
     Some (None, 1) \<and>
   map_option (\<lambda>r. calls_of 1 (events r))
     (setState_live 10 no_builtins (only_errors quiet)
        (unsubscribe (snd (subscribe ''app.online'' 1 three_subscribers)) subscribed_twice)
        ''app.online'' (JBool True)) = Some 0"
proof -
  have ok: "subs_ok three_subscribers" by (rule subs_ok_three_subscribers)
  have i: "inert (only_errors quiet)" by (rule inert_only_errors)
  have w: "1 \<notin> set (callbacks_at subscribed_twice ''*'')"
    by (simp add: callbacks_at_def subscribed_twice_eq)
  have a: "1 \<notin> set (callbacks_at subscribed_twice ''app'')"
    by (simp add: callbacks_at_def subscribed_twice_eq)
  have anc: "\<forall>anc \<in> set (strict_ancestors ''app.online''). 1 \<notin> set (callbacks_at subscribed_twice anc)"
    using a by (simp add: online_ancestors)
  have n: "enough subscribed_twice ''app.online'' \<le> 10"
    by (simp add: enough_def online_keys subscribed_twice_eq)
  have live: "setState_live 10 no_builtins (only_errors quiet) subscribed_twice ''app.online'' (JBool True) =
      Some (setState no_builtins quiet subscribed_twice ''app.online'' (JBool True))"
    using setState_live_inert [OF i n] by (simp add: errors_of_only_errors)
  note t = set_online_twice_thrown [of quiet]
  from subscribe_twice_C3 [OF ok i subscribed_twice_def w anc n, of no_builtins "JBool True"]
    ok i w a n live t
  show ?thesis
    by (auto simp: online_ancestors)
qed

text \<open>Registered twice, called once; and after one of the two returned functions has
  run, not called at all.\<close>

theorem subscribe_twice_C3_counterexample:
  "map_option (\<lambda>r. (thrown r, calls_of 7 (events r)))
     (setState_live 7 no_builtins (only_errors quiet)
        (fst (subscribe ''app.online'' 7 (fst (subscribe ''app.online'' 7 initial_store))))
        ''app.online'' (JBool True)) = Some (None, 1) \<and>
   map_option (\<lambda>r. (thrown r, calls_of 7 (events r)))
     (setState_live 7 no_builtins (only_errors quiet)
        (unsubscribe (snd (subscribe ''app.online'' 7 initial_store))
           (fst (subscribe ''app.online'' 7 (fst (subscribe ''app.online'' 7 initial_store)))))
        ''app.online'' (JBool True)) = Some (None, 0)"
  by code_simp

subsection \<open>Reading back what was written\<close>

lemma plain_key_assign:
  "plain_key t k \<Longrightarrow> \<exists>t'. assign rt t k v = Inr t' \<and> own_prop t' k = Some v"
proof (cases t)
  case (JObj kvs)
  assume "plain_key t k"
  with JObj show ?thesis by (auto simp: update_conv')
next
  case (JArr xs ps)
  assume "plain_key t k"
  with JArr show ?thesis
    by (cases "index_of k") (auto simp: update_conv' resize_def)
qed simp_all

lemma plain_key_not_nullish: "plain_key t k \<Longrightarrow> \<not> nullish t"
  by (cases t) (simp_all add: nullish_def)

lemma own_prop_not_nullish: "own_prop t k = Some c \<Longrightarrow> \<not> nullish t"
  by (cases t) (simp_all add: nullish_def)

lemma valid_path_object: "valid_path c ks \<Longrightarrow> (\<exists>kvs. c = JObj kvs) \<or> (\<exists>xs ps. c = JArr xs ps)"
  by (induction c ks rule: valid_path.induct) (auto elim: plain_key.elims own_prop.elims split: option.splits)

lemma own_prop_put_child:
  assumes "own_prop t k = Some c" and "(\<exists>kvs. c = JObj kvs) \<or> (\<exists>xs ps. c = JArr xs ps)"
  shows "own_prop (put_child t k c') k = Some c'"
proof (cases t)
  case (JObj kvs)
  then show ?thesis by (simp add: update_conv')
next
  case (JArr xs ps)
  with assms have k: "k \<noteq> ''length''" by (auto split: if_splits)
  show ?thesis
  proof (cases "index_of k")
    case None
    with JArr k show ?thesis by (simp add: update_conv')
  next
    case (Some i)
    with JArr k assms(1) show ?thesis by (auto split: if_splits)
  qed
qed (use assms in simp_all)

lemma member_own: "own_prop t k = Some c \<Longrightarrow> member rt t k = Inr c"
  by (simp add: member_def lookup_prop_def own_prop_not_nullish)

lemma opt_member_own: "own_prop t k = Some c \<Longrightarrow> opt_member rt t k = Inr c"
  by (simp add: opt_member_def member_own own_prop_not_nullish)

lemma valid_path_written:
  "valid_path t ks \<Longrightarrow>
     \<exists>obj old obj'. descend rt t (butlast ks) = Inr obj \<and> member rt obj (last ks) = Inr old \<and>
        assign rt obj (last ks) v = Inr obj' \<and>
        get_loop rt (replace_at t (butlast ks) obj') ks = Inr v"
proof (induction t ks rule: valid_path.induct)
  case (1 t)
  then show ?case by simp
next
  case (2 t k)
  then have p: "plain_key t k" by simp
  then obtain t' where a: "assign rt t k v = Inr t'" and o: "own_prop t' k = Some v"
    using plain_key_assign by blast
  from p have "\<exists>old. member rt t k = Inr old"
    by (simp add: member_def plain_key_not_nullish)
  with a o show ?case by (auto simp: opt_member_own)
next
  case (3 t k k' ks)
  from "3.prems" obtain child where c: "own_prop t k = Some child"
    and v: "valid_path child (k' # ks)"
    by (auto split: option.splits)
  from "3.IH" [OF c v] obtain obj old obj' where
    d: "descend rt child (butlast (k' # ks)) = Inr obj" and
    m: "member rt obj (last (k' # ks)) = Inr old" and
    a: "assign rt obj (last (k' # ks)) v = Inr obj'" and
    g: "get_loop rt (replace_at child (butlast (k' # ks)) obj') (k' # ks) = Inr v"
    by blast
  from v have "(\<exists>kvs. child = JObj kvs) \<or> (\<exists>xs ps. child = JArr xs ps)"
    by (rule valid_path_object)
  with c have "own_prop (put_child t k (replace_at child (butlast (k' # ks)) obj')) k =
      Some (replace_at child (butlast (k' # ks)) obj')"
    by (rule own_prop_put_child)
  then have om: "opt_member rt (put_child t k (replace_at child (butlast (k' # ks)) obj')) k =
      Inr (replace_at child (butlast (k' # ks)) obj')"
    by (rule opt_member_own)
  have b: "butlast (k # k' # ks) = k # butlast (k' # ks)" and l: "last (k # k' # ks) = last (k' # ks)"
    by simp_all
  have d': "descend rt t (k # butlast (k' # ks)) = Inr obj"
    using d member_own [OF c, of rt] by (simp del: butlast.simps)
  have r: "replace_at t (k # butlast (k' # ks)) obj' =
      put_child t k (replace_at child (butlast (k' # ks)) obj')"
    using c by (simp del: butlast.simps)
  have g': "get_loop rt (put_child t k (replace_at child (butlast (k' # ks)) obj')) (k # k' # ks) =
      Inr v"
    using om g by (simp del: butlast.simps replace_at.simps)
  from g' have g'': "get_loop rt (replace_at t (k # butlast (k' # ks)) obj') (k # k' # ks) = Inr v"
    by (simp only: r)
  from d' m a g'' show ?case
    unfolding b l by blast
qed

text \<open>
  C8, as amended. For a path that is not the empty string, whose keys but the last each
  name an own property of the object before, and whose last key is written as a plain data
  property of the object reached, and for every value: when no callback calls back into the
  store while the broadcast runs, \<open>setState\<close> returns without an error and \<open>getState\<close>
  then returns the value.
\<close>

theorem set_then_get_C8:
  assumes "p \<noteq> []" and "valid_path (tree st) (path_keys p)" and "inert lb"
    and "enough st p \<le> n"
  shows "\<exists>r. setState_live n rt lb st p v = Some r \<and> thrown r = None \<and>
           getState rt (tree (final r)) (Some p) = Inr v"
proof -
  let ?r = "setState rt (errors_of lb) st p v"
  have live: "setState_live n rt lb st p v = Some ?r"
    using assms(3,4) by (rule setState_live_inert)
  from assms(2) obtain obj old obj' where
    d: "descend rt (tree st) (butlast (path_keys p)) = Inr obj" and
    m: "member rt obj (last (path_keys p)) = Inr old" and
    a: "assign rt obj (last (path_keys p)) v = Inr obj'" and
    g: "get_loop rt (replace_at (tree st) (butlast (path_keys p)) obj') (path_keys p) = Inr v"
    using valid_path_written by blast
  from d m a have w: "write_path rt st p v =
      Inr (st\<lparr>tree := replace_at (tree st) (butlast (path_keys p)) obj'\<rparr>, old)"
    by (simp add: write_path_def)
  then have "thrown ?r = None"
    and "final ?r = st\<lparr>tree := replace_at (tree st) (butlast (path_keys p)) obj'\<rparr>"
    by (rule setState_written)+
  with live g assms(1) show ?thesis by (simp add: getState_def)
qed

lemma valid_path_intermediate: "valid_path t ks \<Longrightarrow> intermediate_objects t ks"
proof (induction t ks rule: valid_path.induct)
  case (3 t k k' ks)
  then obtain child where c: "own_prop t k = Some child" and v: "valid_path child (k' # ks)"
    by (auto split: option.splits)
  from v have "is_object child" using valid_path_object by fastforce
  with c v "3.IH" show ?case by simp
qed simp_all

lemma disk_keys: "path_keys ''data.disks.2'' = [''data'', ''disks'', ''2'']"
  by (simp add: path_keys_def)

theorem set_then_get_C8_witness:
  "''data.disks.2'' \<noteq> [] \<and>
   valid_path (tree three_subscribers) (path_keys ''data.disks.2'') \<and>
   inert (only_errors quiet) \<and>
   enough three_subscribers ''data.disks.2'' \<le> 10 \<and>
   map_option (\<lambda>r. (thrown r, getState no_builtins (tree (final r)) (Some ''data.disks.2'')))
     (setState_live 10 no_builtins (only_errors quiet) three_subscribers ''data.disks.2''
        (JStr ''sda'')) = Some (None, Inr (JStr ''sda''))"
proof -
  have p: "''data.disks.2'' \<noteq> []" by simp
  have v: "valid_path (tree three_subscribers) (path_keys ''data.disks.2'')"
    by (simp add: disk_keys three_subscribers_eq initial_tree_def empty_array_def)
  have i: "inert (only_errors quiet)" by (rule inert_only_errors)
  have n: "enough three_subscribers ''data.disks.2'' \<le> 10"
    by (simp add: enough_def disk_keys three_subscribers_eq)
  from set_then_get_C8 [OF p v i n, of no_builtins "JStr ''sda''"] p v i n show ?thesis
    by auto
qed

text \<open>
  Four paths whose keys but the last name objects of the tree, and a value each that is
  not read back. The empty string: \<open>setState\<close> writes the property of that name and
  \<open>getState\<close> returns the whole tree. The \<^verbatim>\<open>length\<close> of an array: the value is converted to
  a number. \<^verbatim>\<open>__proto__\<close>: the tree stays as it was. And a path with a subscriber that
  answers the value \<^verbatim>\<open>true\<close> by setting the path to 0 while the broadcast runs.
\<close>

theorem set_then_get_C8_counterexample:
  "intermediate_objects initial_tree (path_keys '''') \<and>
   map_option
     (\<lambda>r. (thrown r, getState no_builtins (tree (final r)) (Some '''') = Inr (tree (final r)),
           tree (final r) = JNum 1, value_at no_builtins (tree (final r)) ''''))
     (setState_live 5 no_builtins (only_errors quiet) initial_store '''' (JNum 1)) =
     Some (None, True, False, JNum 1) \<and>
   intermediate_objects initial_tree (path_keys ''data.disks.length'') \<and>
   map_option (\<lambda>r. (thrown r, getState no_builtins (tree (final r)) (Some ''data.disks.length'')))
     (setState_live 7 no_builtins (only_errors quiet) initial_store ''data.disks.length''
        (JBool True)) = Some (None, Inr (JNum 1)) \<and>
   intermediate_objects initial_tree (path_keys ''app.__proto__'') \<and>
   map_option (\<lambda>r. (thrown r, tree (final r) = initial_tree))
     (setState_live 6 no_builtins (only_errors quiet) initial_store ''app.__proto__'' (JNum 5)) =
     Some (None, True) \<and>
   intermediate_objects initial_tree (path_keys ''app.online'') \<and>
   map_option (\<lambda>r. (thrown r, getState no_builtins (tree (final r)) (Some ''app.online''), events r))
     (setState_live 8 no_builtins resetting (fst (subscribe ''app.online'' 7 initial_store))
        ''app.online'' (JBool True)) =
     Some (None, Inr (JNum 0),
           [Called 7 (JBool True) (JBool False) ''app.online'',
            Called 7 (JNum 0) (JBool True) ''app.online''])"
  by code_simp

section \<open>The request client\<close>

lemma always_apply: "always r n = r"
  by (simp add: always_def)

lemma request_loop_retry:
  assumes "attempt \<le> MAX_RETRIES" and "try_block rt (srv attempt) = Inl e" and "loop_goes_on e"
    and "nxt = attempt + 1" and "request_loop rt srv nxt (Some e) = (r, acts)"
  shows "request_loop rt srv attempt lastError =
     (r, Fetch attempt # (if attempt < MAX_RETRIES then [Sleep (2 ^ attempt * 100)] else []) @ acts)"
proof (cases "attempt < MAX_RETRIES")
  case True
  with assms show ?thesis
    by (subst request_loop.simps) (simp add: loop_goes_on_def)
next
  case False
  with assms show ?thesis
    by (subst request_loop.simps) (simp add: loop_goes_on_def)
qed

lemma request_loop_exit:
  "MAX_RETRIES < attempt \<Longrightarrow> request_loop rt srv attempt lastError = (Inl lastError, [])"
  by (subst request_loop.simps) simp

text \<open>Three attempts that each throw an error on which the loop does not break: three
  calls of \<^verbatim>\<open>fetch\<close>, a wait of 200 ms and one of 400 ms between them, and the error of the
  third attempt.\<close>

lemma request_three_retries:
  assumes e1: "try_block rt (srv 1) = Inl e1" "loop_goes_on e1"
    and e2: "try_block rt (srv 2) = Inl e2" "loop_goes_on e2"
    and e3: "try_block rt (srv 3) = Inl e3" "loop_goes_on e3"
  shows "request rt srv = (Inl (Some e3), [Fetch 1, Sleep 200, Fetch 2, Sleep 400, Fetch 3])"
proof -
  have l4: "request_loop rt srv 4 (Some e3) = (Inl (Some e3), [])"
    by (rule request_loop_exit) (simp add: MAX_RETRIES_def)
  have "request_loop rt srv 3 (Some e2) =
      (Inl (Some e3), Fetch 3 # (if (3::nat) < MAX_RETRIES then [Sleep (2 ^ 3 * 100)] else []) @ [])"
    by (rule request_loop_retry [OF _ e3 _ l4]) (simp_all add: MAX_RETRIES_def)
  then have l3: "request_loop rt srv 3 (Some e2) = (Inl (Some e3), [Fetch 3])"
    by (simp add: MAX_RETRIES_def)
  have "request_loop rt srv 2 (Some e1) =
      (Inl (Some e3), Fetch 2 # (if (2::nat) < MAX_RETRIES then [Sleep (2 ^ 2 * 100)] else []) @ [Fetch 3])"
    by (rule request_loop_retry [OF _ e2 _ l3]) (simp_all add: MAX_RETRIES_def)
  then have l2: "request_loop rt srv 2 (Some e1) = (Inl (Some e3), [Fetch 2, Sleep 400, Fetch 3])"
    by (simp add: MAX_RETRIES_def)
  have "request_loop rt srv 1 None =
      (Inl (Some e3), Fetch 1 # (if (1::nat) < MAX_RETRIES then [Sleep (2 ^ 1 * 100)] else []) @
         [Fetch 2, Sleep 400, Fetch 3])"
    by (rule request_loop_retry [OF _ e1 _ l2]) (simp_all add: MAX_RETRIES_def)
  then have "request_loop rt srv 1 None =
      (Inl (Some e3), [Fetch 1, Sleep 200, Fetch 2, Sleep 400, Fetch 3])"
    by (simp add: MAX_RETRIES_def)
  then show ?thesis by (simp add: request_def)
qed

text \<open>What the loop does on the first attempt when it does not retry: an error whose
  message contains \<^verbatim>\<open>HTTP error 4\<close> is thrown as it is, an \<^verbatim>\<open>AbortError\<close> becomes a
  timeout, and a parsed body of a response that is \<^verbatim>\<open>ok\<close> is returned.\<close>

lemma request_client_error_once:
  assumes "try_block rt (srv 1) = Inl e" and "str_includes (err_message e) ''HTTP error 4''"
  shows "request rt srv = (Inl (Some e), [Fetch 1])"
  unfolding request_def using assms
  by (subst request_loop.simps) (simp add: MAX_RETRIES_def)

lemma request_abort_once:
  assumes "try_block rt (srv 1) = Inl e" and "\<not> str_includes (err_message e) ''HTTP error 4''"
    and "err_name e = ''AbortError''"
  shows "request rt srv = (Inl (Some (JsError ''Error'' ''Request timeout'')), [Fetch 1])"
  unfolding request_def using assms
  by (subst request_loop.simps) (simp add: MAX_RETRIES_def)

lemma request_success_first:
  assumes "try_block rt (srv 1) = Inr data"
  shows "request rt srv = (Inr data, [Fetch 1])"
  unfolding request_def using assms
  by (subst request_loop.simps) (simp add: MAX_RETRIES_def)

subsection \<open>The four responses\<close>

lemma try_block_not_found_with_message:
  "try_block no_builtins (Inr not_found_with_message) = Inl (JsError ''Error'' ''Device not found'')"
  by (simp add: try_block_def not_found_with_message_def response_ok_def error_text_def member_def
      opt_member_def nullish_def lookup_prop_def js_to_string_def no_builtins_def)

lemma try_block_not_found_plain:
  "try_block no_builtins (Inr not_found_plain) = Inl (JsError ''Error'' ''HTTP error 404'')"
  by (simp add: try_block_def not_found_plain_def response_ok_def error_text_def member_def
      opt_member_def nullish_def lookup_prop_def no_builtins_def string_of_nat.simps digit_char_def)

lemma try_block_server_error:
  "try_block no_builtins (Inr server_error) = Inl (JsError ''Error'' ''HTTP error 500'')"
  by (simp add: try_block_def server_error_def response_ok_def error_text_def member_def
      opt_member_def nullish_def lookup_prop_def no_builtins_def string_of_nat.simps digit_char_def)

lemma try_block_server_error_quoting:
  "try_block no_builtins (Inr server_error_quoting) =
     Inl (JsError ''Error'' ''upstream said HTTP error 404'')"
  by (simp add: try_block_def server_error_quoting_def response_ok_def error_text_def member_def
      opt_member_def nullish_def lookup_prop_def js_to_string_def no_builtins_def)

text \<open>A 404 and a 500 whose bodies carry no message: the first is tried once, the second
  three times, with waits of \<open>100 * 2 ^ attempt\<close> milliseconds after the attempts 1 and 2.\<close>

lemma request_not_found_plain:
  "request no_builtins (always (Inr not_found_plain)) =
     (Inl (Some (JsError ''Error'' ''HTTP error 404'')), [Fetch 1])"
  unfolding request_def
  by (subst request_loop.simps)
    (simp add: MAX_RETRIES_def always_apply try_block_not_found_plain)

lemma request_server_error:
  "request no_builtins (always (Inr server_error)) =
     (Inl (Some (JsError ''Error'' ''HTTP error 500'')),
      [Fetch 1, Sleep (100 * 2 ^ 1), Fetch 2, Sleep (100 * 2 ^ 2), Fetch 3])"
proof -
  have r: "loop_goes_on (JsError ''Error'' ''HTTP error 500'')"
    by (simp add: loop_goes_on_def)
  have t: "try_block no_builtins (always (Inr server_error) a) =
      Inl (JsError ''Error'' ''HTTP error 500'')" for a
    by (simp add: always_apply try_block_server_error)
  have "request no_builtins (always (Inr server_error)) =
     (Inl (Some (JsError ''Error'' ''HTTP error 500'')),
      [Fetch 1, Sleep 200, Fetch 2, Sleep 400, Fetch 3])"
    using t r t r t r by (rule request_three_retries)
  then show ?thesis by simp
qed

text \<open>
  C2 says that a 4xx response is never retried. The loop recognises a client error by the
  text \<^verbatim>\<open>HTTP error 4\<close> in the message of the error, and the message is that text only when
  the body carries no message of its own: a 404 whose body does carry one is tried three
  times, with both waits, before the call fails with the message of the server.
\<close>

theorem client_error_retried_C2:
  "status not_found_with_message = 404 \<and>
   request no_builtins (always (Inr not_found_with_message)) =
     (Inl (Some (JsError ''Error'' ''Device not found'')),
      [Fetch 1, Sleep 200, Fetch 2, Sleep 400, Fetch 3])"
proof -
  have r: "loop_goes_on (JsError ''Error'' ''Device not found'')"
    by (simp add: loop_goes_on_def)
  have t: "try_block no_builtins (always (Inr not_found_with_message) a) =
      Inl (JsError ''Error'' ''Device not found'')" for a
    by (simp add: always_apply try_block_not_found_with_message)
  have "request no_builtins (always (Inr not_found_with_message)) =
     (Inl (Some (JsError ''Error'' ''Device not found'')),
      [Fetch 1, Sleep 200, Fetch 2, Sleep 400, Fetch 3])"
    using t r t r t r by (rule request_three_retries)
  then show ?thesis
    by (simp add: not_found_with_message_def)
qed

text \<open>
  C5 says that a call whose attempts all fail with a retryable error, an HTTP 500 for one,
  makes three attempts. The loop takes an error for a client error by the text
  \<^verbatim>\<open>HTTP error 4\<close> in its message, whatever the status of the response: when every call of
  \<^verbatim>\<open>fetch\<close> resolves with a 500 whose body carries a message that contains that text, the
  call makes one attempt, waits for nothing and fails with that message.
\<close>

theorem server_error_not_retried_C5:
  "status server_error_quoting = 500 \<and>
   \<not> response_ok server_error_quoting \<and>
   request no_builtins (always (Inr server_error_quoting)) =
     (Inl (Some (JsError ''Error'' ''upstream said HTTP error 404'')), [Fetch 1]) \<and>
   fetches (snd (request no_builtins (always (Inr server_error_quoting)))) = [1] \<and>
   sleeps (snd (request no_builtins (always (Inr server_error_quoting)))) = []"
proof -
  have t: "try_block no_builtins (always (Inr server_error_quoting) 1) =
      Inl (JsError ''Error'' ''upstream said HTTP error 404'')"
    by (simp add: always_apply try_block_server_error_quoting)
  have i: "str_includes (err_message (JsError ''Error'' ''upstream said HTTP error 404''))
      ''HTTP error 4''"
    by simp
  have "request no_builtins (always (Inr server_error_quoting)) =
     (Inl (Some (JsError ''Error'' ''upstream said HTTP error 404'')), [Fetch 1])"
    using t i by (rule request_client_error_once)
  then show ?thesis
    by (simp add: server_error_quoting_def response_ok_def)
qed

section \<open>The poll orchestrator: going offline and coming back\<close>

lemma coherent_polling: "coherent polling"
  by (simp add: coherent_def polling_def)

lemma coherent_resume:
  "coherent s \<Longrightarrow> resume a out s = (s', nxt, reqs) \<Longrightarrow> coherent s'"
  by (cases a; cases out)
    (auto simp: coherent_def startPolling_def stopPolling_def split: if_splits)

lemma coherent_step:
  assumes "coherent s" and "step s h = Some (s', reqs)"
  shows "coherent s'"
proof (cases h)
  case SlowTick
  with assms show ?thesis by (auto simp: step_def coherent_def split: if_splits)
next
  case FastTick
  with assms show ?thesis by (auto simp: step_def coherent_def split: if_splits)
next
  case TimeoutFires
  with assms show ?thesis by (auto simp: step_def coherent_def split: list.splits)
next
  case (Settles i out)
  with assms(2) have i: "i < length (tasks s)"
    by (simp add: step_def split: if_splits)
  obtain s1 nxt r where res: "resume (tasks s ! i) out s = (s1, nxt, r)"
    by (cases "resume (tasks s ! i) out s")
  with assms(1) have "coherent s1" by (rule coherent_resume)
  moreover from assms(2) Settles i res have "pollTimer s' = pollTimer s1"
    "devicePollTimer s' = devicePollTimer s1" "isPolling s' = isPolling s1"
    by (auto simp: step_def)
  ultimately show ?thesis by (simp add: coherent_def)
qed

lemma quiescent_no_step: "quiescent s \<Longrightarrow> step s h = None"
  by (cases h) (simp_all add: quiescent_def step_def)

lemma quiescent_no_run: "quiescent s \<Longrightarrow> hs \<noteq> [] \<Longrightarrow> run s hs = None"
  by (cases hs) (simp_all add: quiescent_no_step)

lemma step_metrics_failed:
  assumes "i < length (tasks s)" and "tasks s ! i = AwaitMetrics"
  shows "step s (Settles i Rejected) = Some (s\<lparr>tasks := (tasks s)[i := AwaitHealth]\<rparr>, [Health])"
  using assms by (simp add: step_def)

lemma step_probe_failed:
  assumes "i < length (tasks s)" and "tasks s ! i = AwaitHealth" and "\<not> backend_alive out"
  shows "step s (Settles i out) =
     Some (s\<lparr>pollTimer := False, devicePollTimer := False, isPolling := False,
              timeouts := timeouts s @ [5000], tasks := (tasks s)[i := AwaitNetwork],
              online := False, banner := True\<rparr>, [Network])"
  using assms by (simp add: step_def stopPolling_def)

lemma step_reconnect_fires:
  assumes "timeouts s = d # ds"
  shows "step s TimeoutFires = Some (s\<lparr>timeouts := ds, tasks := tasks s @ [AwaitReconnect]\<rparr>, [Health])"
  using assms by (simp add: step_def)

lemma step_reconnect_succeeded:
  assumes "coherent s" and "i < length (tasks s)" and "tasks s ! i = AwaitReconnect"
    and "backend_alive out"
  shows "step s (Settles i out) =
     Some (s\<lparr>pollTimer := True, devicePollTimer := True, isPolling := True,
              tasks := take i (tasks s) @ drop (Suc i) (tasks s),
              online := True, banner := False\<rparr>, [])"
  using assms by (auto simp: step_def startPolling_def coherent_def)

lemma step_reconnect_failed:
  assumes "i < length (tasks s)" and "tasks s ! i = AwaitReconnect" and "\<not> backend_alive out"
  shows "step s (Settles i out) = Some (s\<lparr>tasks := take i (tasks s) @ drop (Suc i) (tasks s)\<rparr>, [])"
  using assms by (simp add: step_def)

text \<open>
  C4, as amended. In a state whose flag and handles agree, for the task \<open>i\<close>: when the
  metrics poll it awaits fails, the health probe is sent. When the health probe it awaits
  fails, both interval handles are cleared, \<open>isPolling\<close> is false, the application is
  offline with its banner shown, one one-shot timer of 5000 ms is added after those that
  are pending, every other task stays where it waits, and the task itself goes on: it
  sends the network poll and waits for it. A one-shot timer that fires sends the reconnect
  probe. When the reconnect probe the task awaits succeeds, both intervals run again, the
  application is online and the task ends; when it fails, the task ends and changes
  nothing else: no timer, no request. If then no interval runs, no timer is pending and no
  other task waits, no step is possible any more.
\<close>

theorem offline_reconnect_C4:
  assumes "coherent s" and "i < length (tasks s)"
  shows
    "(tasks s ! i = AwaitMetrics \<longrightarrow>
        step s (Settles i Rejected) = Some (s\<lparr>tasks := (tasks s)[i := AwaitHealth]\<rparr>, [Health])) \<and>
     (tasks s ! i = AwaitHealth \<and> \<not> backend_alive out \<longrightarrow>
        step s (Settles i out) =
          Some (s\<lparr>pollTimer := False, devicePollTimer := False, isPolling := False,
                   timeouts := timeouts s @ [5000], tasks := (tasks s)[i := AwaitNetwork],
                   online := False, banner := True\<rparr>, [Network]) \<and>
        (timeouts s = [] \<longrightarrow>
           step (s\<lparr>pollTimer := False, devicePollTimer := False, isPolling := False,
                    timeouts := [5000], tasks := (tasks s)[i := AwaitNetwork],
                    online := False, banner := True\<rparr>) TimeoutFires =
             Some (s\<lparr>pollTimer := False, devicePollTimer := False, isPolling := False,
                      timeouts := [], tasks := (tasks s)[i := AwaitNetwork] @ [AwaitReconnect],
                      online := False, banner := True\<rparr>, [Health]))) \<and>
     (tasks s ! i = AwaitReconnect \<and> backend_alive out \<longrightarrow>
        step s (Settles i out) =
          Some (s\<lparr>pollTimer := True, devicePollTimer := True, isPolling := True,
                   tasks := take i (tasks s) @ drop (Suc i) (tasks s),
                   online := True, banner := False\<rparr>, [])) \<and>
     (tasks s ! i = AwaitReconnect \<and> \<not> backend_alive out \<longrightarrow>
        step s (Settles i out) = Some (s\<lparr>tasks := take i (tasks s) @ drop (Suc i) (tasks s)\<rparr>, []) \<and>
        (\<not> pollTimer s \<and> timeouts s = [] \<and> tasks s = [AwaitReconnect] \<longrightarrow>
           (\<forall>h. step (s\<lparr>tasks := take i (tasks s) @ drop (Suc i) (tasks s)\<rparr>) h = None)))"
proof -
  have a: "step s (Settles i Rejected) = Some (s\<lparr>tasks := (tasks s)[i := AwaitHealth]\<rparr>, [Health])"
    if "tasks s ! i = AwaitMetrics"
    using assms(2) that by (rule step_metrics_failed)
  have b: "step s (Settles i out) =
          Some (s\<lparr>pollTimer := False, devicePollTimer := False, isPolling := False,
                   timeouts := timeouts s @ [5000], tasks := (tasks s)[i := AwaitNetwork],
                   online := False, banner := True\<rparr>, [Network])"
    if "tasks s ! i = AwaitHealth" "\<not> backend_alive out"
    using assms(2) that by (rule step_probe_failed)
  have b': "step (s\<lparr>pollTimer := False, devicePollTimer := False, isPolling := False,
                    timeouts := [5000], tasks := (tasks s)[i := AwaitNetwork],
                    online := False, banner := True\<rparr>) TimeoutFires =
             Some (s\<lparr>pollTimer := False, devicePollTimer := False, isPolling := False,
                      timeouts := [], tasks := (tasks s)[i := AwaitNetwork] @ [AwaitReconnect],
                      online := False, banner := True\<rparr>, [Health])"
    by (simp add: step_def)
  have c: "step s (Settles i out) =
          Some (s\<lparr>pollTimer := True, devicePollTimer := True, isPolling := True,
                   tasks := take i (tasks s) @ drop (Suc i) (tasks s),
                   online := True, banner := False\<rparr>, [])"
    if "tasks s ! i = AwaitReconnect" "backend_alive out"
    using assms that by (rule step_reconnect_succeeded)
  have d: "step s (Settles i out) = Some (s\<lparr>tasks := take i (tasks s) @ drop (Suc i) (tasks s)\<rparr>, [])"
    if "tasks s ! i = AwaitReconnect" "\<not> backend_alive out"
    using assms(2) that by (rule step_reconnect_failed)
  have e: "step (s\<lparr>tasks := take i (tasks s) @ drop (Suc i) (tasks s)\<rparr>) h = None"
    if "\<not> pollTimer s" "timeouts s = []" "tasks s = [AwaitReconnect]" for h
  proof -
    from assms(1) that(1) have "\<not> devicePollTimer s" by (simp add: coherent_def)
    with that assms(2) have "quiescent (s\<lparr>tasks := take i (tasks s) @ drop (Suc i) (tasks s)\<rparr>)"
      by (simp add: quiescent_def)
    then show ?thesis by (rule quiescent_no_step)
  qed
  from a b b' c d e show ?thesis by blast
qed

theorem offline_reconnect_C4_witness:
  "coherent probing \<and> tasks probing ! 0 = AwaitHealth \<and> \<not> backend_alive Rejected \<and>
   step probing (Settles 0 Rejected) =
     Some (\<lparr>pollTimer = False, devicePollTimer = False, isPolling = False, pollCounter = 5,
            timeouts = [5000], tasks = [AwaitNetwork], online = False, banner = True\<rparr>, [Network]) \<and>
   step \<lparr>pollTimer = False, devicePollTimer = False, isPolling = False, pollCounter = 5,
         timeouts = [5000], tasks = [AwaitNetwork], online = False, banner = True\<rparr> TimeoutFires =
     Some (\<lparr>pollTimer = False, devicePollTimer = False, isPolling = False, pollCounter = 5,
            timeouts = [], tasks = [AwaitNetwork, AwaitReconnect], online = False,
            banner = True\<rparr>, [Health]) \<and>
   coherent reconnecting \<and> tasks reconnecting ! 0 = AwaitReconnect \<and> backend_alive (Resolved True) \<and>
   step reconnecting (Settles 0 (Resolved True)) =
     Some (\<lparr>pollTimer = True, devicePollTimer = True, isPolling = True, pollCounter = 6,
            timeouts = [], tasks = [], online = True, banner = False\<rparr>, []) \<and>
   step reconnecting (Settles 0 Rejected) = Some (reconnecting\<lparr>tasks := []\<rparr>, []) \<and>
   (\<forall>h. step (reconnecting\<lparr>tasks := []\<rparr>) h = None)"
proof -
  have cp: "coherent probing" and lp: "0 < length (tasks probing)"
    by (simp_all add: coherent_def probing_def polling_def)
  have cr: "coherent reconnecting" and lr: "0 < length (tasks reconnecting)"
    by (simp_all add: coherent_def reconnecting_def)
  have dead: "\<not> backend_alive Rejected" and alive: "backend_alive (Resolved True)"
    by (simp_all add: backend_alive_def)
  have tp: "tasks probing ! 0 = AwaitHealth" "timeouts probing = []"
    by (simp_all add: probing_def polling_def)
  have tr: "tasks reconnecting ! 0 = AwaitReconnect" "tasks reconnecting = [AwaitReconnect]"
    "\<not> pollTimer reconnecting" "timeouts reconnecting = []"
    by (simp_all add: reconnecting_def)
  have 1: "step probing (Settles 0 Rejected) =
     Some (\<lparr>pollTimer = False, devicePollTimer = False, isPolling = False, pollCounter = 5,
            timeouts = [5000], tasks = [AwaitNetwork], online = False, banner = True\<rparr>, [Network]) \<and>
   step \<lparr>pollTimer = False, devicePollTimer = False, isPolling = False, pollCounter = 5,
         timeouts = [5000], tasks = [AwaitNetwork], online = False, banner = True\<rparr> TimeoutFires =
     Some (\<lparr>pollTimer = False, devicePollTimer = False, isPolling = False, pollCounter = 5,
            timeouts = [], tasks = [AwaitNetwork, AwaitReconnect], online = False,
            banner = True\<rparr>, [Health])"
    using offline_reconnect_C4 [OF cp lp, of Rejected] tp dead
    by (simp add: probing_def polling_def)
  have 2: "step reconnecting (Settles 0 (Resolved True)) =
     Some (\<lparr>pollTimer = True, devicePollTimer = True, isPolling = True, pollCounter = 6,
            timeouts = [], tasks = [], online = True, banner = False\<rparr>, [])"
    using offline_reconnect_C4 [OF cr lr, of "Resolved True"] tr alive
    by (simp add: reconnecting_def)
  have 3: "step reconnecting (Settles 0 Rejected) = Some (reconnecting\<lparr>tasks := []\<rparr>, []) \<and>
      (\<forall>h. step (reconnecting\<lparr>tasks := []\<rparr>) h = None)"
    using offline_reconnect_C4 [OF cr lr, of Rejected] tr dead
    by simp
  from cp cr tp(1) tr(1) dead alive 1 2 3 show ?thesis by simp
qed

text \<open>
  The tasks in flight are not cancelled by \<open>stopPolling\<close>. A slow cycle whose metrics
  poll and health probe fail goes on to the network poll; when that poll settles after the
  reconnect probe has failed, the counter reaches 6 and the storage poll is sent, from the
  state the failed reconnect probe has left and with nobody's intervention.
\<close>

theorem offline_reconnect_C4_counterexample:
  "run polling [SlowTick, Settles 0 Rejected, Settles 0 Rejected, TimeoutFires, Settles 1 Rejected] =
     Some (\<lparr>pollTimer = False, devicePollTimer = False, isPolling = False, pollCounter = 5,
            timeouts = [], tasks = [AwaitNetwork], online = False, banner = True\<rparr>,
           [Metrics, Health, Network, Health]) \<and>
   step \<lparr>pollTimer = False, devicePollTimer = False, isPolling = False, pollCounter = 5,
         timeouts = [], tasks = [AwaitNetwork], online = False, banner = True\<rparr>
        (Settles 0 Rejected) =
     Some (\<lparr>pollTimer = False, devicePollTimer = False, isPolling = False, pollCounter = 6,
            timeouts = [], tasks = [AwaitStorage], online = False, banner = True\<rparr>,
           [Storage])"
  by (simp add: polling_def step_def stopPolling_def backend_alive_def)

end
